theory Spec2Isabelle
  imports Main "HOL-Library.Word"
begin

section \<open>Frame ring buffer (\<^verbatim>\<open>core/frame_buffer.hpp\<close>)\<close>

text \<open>
  Conventions of the embedding.
  \<^item> \<^verbatim>\<open>size_t\<close> values (indices, counts, sizes) are \<open>nat\<close>: every index is reduced
    modulo \<open>num_slots\<close> and \<open>count\<close> only moves between \<open>0\<close> and \<open>num_slots\<close>, so
    no \<^verbatim>\<open>size_t\<close> arithmetic of the buffer can wrap on a buffer built by \<open>init\<close>.
  \<^item> \<^verbatim>\<open>uint32_t\<close> counters are \<open>32 word\<close>: \<^verbatim>\<open>++\<close> is \<open>+ 1\<close> and wraps at \<open>2^32\<close>.
  \<^item> \<^verbatim>\<open>int64_t\<close> frame timestamps are only copied, never computed with: \<open>64 word\<close>.
  \<^item> A \<^verbatim>\<open>const uint8_t*\<close> argument is \<open>None\<close> for \<^verbatim>\<open>nullptr\<close> and otherwise \<open>Some bs\<close>,
    the bytes readable at the pointer. A slot's \<^verbatim>\<open>data\<close> buffer is the byte list it
    points to; the pointer handed out by \<open>peek\<close> is the index of the slot, and the
    bytes seen through it are read from the buffer state (\<open>deref\<close>), so that a later
    write to the slot is visible through a pointer obtained earlier.
  \<^item> The mutex (\<^verbatim>\<open>lock\<close>/\<^verbatim>\<open>unlock\<close>) makes each operation atomic; an operation is
    a function from the state before to the state after.
\<close>

type_synonym byte = "8 word"
type_synonym uint32 = "32 word"
type_synonym int64 = "64 word"

record FrameSlot =
  slot_data :: "byte list"
  slot_capacity :: nat
  slot_size :: nat
  slot_timestamp_us :: int64
  occupied :: bool
  reading :: bool

record FrameBuffer =
  slots :: "FrameSlot list"
  num_slots :: nat
  max_frame_size :: nat
  write_idx :: nat
  read_idx :: nat
  count :: nat
  frames_dropped :: uint32
  initialized :: bool

text \<open>The state of a default-constructed \<^verbatim>\<open>FrameBuffer\<close>; \<^verbatim>\<open>slots_ == nullptr\<close> is \<open>[]\<close>.\<close>

definition FrameBuffer_new :: FrameBuffer where
  "FrameBuffer_new =
     \<lparr>slots = [], num_slots = 0, max_frame_size = 0, write_idx = 0, read_idx = 0,
      count = 0, frames_dropped = 0, initialized = False\<rparr>"

text \<open>
  What the allocator and the platform give to \<open>init\<close>: whether
  \<^verbatim>\<open>new (std::nothrow) FrameSlot[n]\<close> succeeds, the result of the \<open>i\<close>-th buffer
  allocation (\<open>None\<close> for a null result, otherwise the bytes the fresh block happens to
  hold; the flag is \<^verbatim>\<open>use_psram\<close>), and whether the mutex can be created (always so on
  the host build).
\<close>

record alloc_env =
  new_slots_ok :: bool
  malloc_buf :: "bool \<Rightarrow> nat \<Rightarrow> byte list option"
  mutex_ok :: bool

definition deinit :: "FrameBuffer \<Rightarrow> FrameBuffer" where
  "deinit b =
     b\<lparr>slots := [], num_slots := 0, max_frame_size := 0, write_idx := 0, read_idx := 0,
       count := 0, frames_dropped := 0, initialized := False\<rparr>"

text \<open>The allocation loop of \<open>init\<close>: \<open>None\<close> as soon as one allocation fails.\<close>

fun alloc_slots :: "(nat \<Rightarrow> byte list option) \<Rightarrow> nat \<Rightarrow> nat list \<Rightarrow> FrameSlot list option" where
  "alloc_slots m sz [] = Some []"
| "alloc_slots m sz (i # is) =
     (case m i of
        None \<Rightarrow> None
      | Some buf \<Rightarrow>
          (case alloc_slots m sz is of
             None \<Rightarrow> None
           | Some ss \<Rightarrow>
               Some (\<lparr>slot_data = buf, slot_capacity = sz, slot_size = 0,
                      slot_timestamp_us = 0, occupied = False, reading = False\<rparr> # ss)))"

definition init :: "FrameBuffer \<Rightarrow> nat \<Rightarrow> nat \<Rightarrow> bool \<Rightarrow> alloc_env \<Rightarrow> bool \<times> FrameBuffer" where
  "init b n m use_psram env =
     (if initialized b then (True, b)
      else if n = 0 \<or> m = 0 then (False, b)
      else
        let b1 = b\<lparr>num_slots := n, max_frame_size := m\<rparr> in
        if \<not> new_slots_ok env then (False, b1\<lparr>slots := []\<rparr>)
        else
          (case alloc_slots (malloc_buf env use_psram) m [0..<n] of
             None \<Rightarrow> (False, deinit b1)
           | Some ss \<Rightarrow>
               if \<not> mutex_ok env then (False, deinit (b1\<lparr>slots := ss\<rparr>))
               else (True, b1\<lparr>slots := ss, initialized := True\<rparr>)))"

text \<open>\<^verbatim>\<open>memcpy(dst, src, n)\<close>: the first \<open>n\<close> bytes of \<open>dst\<close> become those of \<open>src\<close>.
  It is defined in C only when both blocks hold at least \<open>n\<close> bytes.\<close>

definition memcpy :: "byte list \<Rightarrow> byte list \<Rightarrow> nat \<Rightarrow> byte list" where
  "memcpy dst src n = take n src @ drop n dst"

definition push :: "FrameBuffer \<Rightarrow> byte list option \<Rightarrow> nat \<Rightarrow> int64 \<Rightarrow> bool \<times> FrameBuffer" where
  "push b data sz ts =
     (case data of
        None \<Rightarrow> (False, b)
      | Some src \<Rightarrow>
          if \<not> initialized b \<or> sz = 0 then (False, b)
          else if sz > max_frame_size b then (False, b)
          else if count b \<ge> num_slots b \<and> reading (slots b ! read_idx b)
          then (True, b\<lparr>frames_dropped := frames_dropped b + 1\<rparr>)
          else
            let b1 =
                  (if count b \<ge> num_slots b
                   then b\<lparr>slots := (slots b)[read_idx b := (slots b ! read_idx b)\<lparr>occupied := False\<rparr>],
                          read_idx := (read_idx b + 1) mod num_slots b,
                          count := count b - 1,
                          frames_dropped := frames_dropped b + 1\<rparr>
                   else b);
                slot = slots b1 ! write_idx b1;
                slot' = slot\<lparr>slot_data := memcpy (slot_data slot) src sz,
                             slot_size := sz,
                             slot_timestamp_us := ts,
                             occupied := True,
                             reading := False\<rparr>
            in (True, b1\<lparr>slots := (slots b1)[write_idx b1 := slot'],
                          write_idx := (write_idx b1 + 1) mod num_slots b1,
                          count := count b1 + 1\<rparr>))"

text \<open>
  The out-parameters of \<open>peek\<close>: the three flags say which of \<^verbatim>\<open>data\<close>, \<^verbatim>\<open>size\<close> and
  \<^verbatim>\<open>timestamp_us\<close> are non-null. On success the result holds what was stored through
  them; on failure nothing is stored and the result is \<open>None\<close>.
\<close>

record PeekOut =
  out_data :: nat
  out_size :: nat
  out_timestamp_us :: "int64 option"

definition peek :: "FrameBuffer \<Rightarrow> bool \<Rightarrow> bool \<Rightarrow> bool \<Rightarrow> PeekOut option \<times> FrameBuffer" where
  "peek b data_p size_p ts_p =
     (if \<not> initialized b \<or> \<not> data_p \<or> \<not> size_p then (None, b)
      else if count b = 0 then (None, b)
      else
        let slot = slots b ! read_idx b in
        (Some \<lparr>out_data = read_idx b, out_size = slot_size slot,
               out_timestamp_us = (if ts_p then Some (slot_timestamp_us slot) else None)\<rparr>,
         b\<lparr>slots := (slots b)[read_idx b := slot\<lparr>reading := True\<rparr>]\<rparr>))"

text \<open>The bytes seen through a pointer returned by \<open>peek\<close>, in the current state.\<close>

definition deref :: "FrameBuffer \<Rightarrow> nat \<Rightarrow> byte list" where
  "deref b p = slot_data (slots b ! p)"

definition pop :: "FrameBuffer \<Rightarrow> FrameBuffer" where
  "pop b =
     (if \<not> initialized b then b
      else if count b > 0
      then b\<lparr>slots := (slots b)[read_idx b := (slots b ! read_idx b)\<lparr>occupied := False, reading := False\<rparr>],
             read_idx := (read_idx b + 1) mod num_slots b,
             count := count b - 1\<rparr>
      else b)"

definition available :: "FrameBuffer \<Rightarrow> nat" where
  "available b = count b"

definition empty :: "FrameBuffer \<Rightarrow> bool" where
  "empty b = (count b = 0)"

definition full :: "FrameBuffer \<Rightarrow> bool" where
  "full b = (initialized b \<and> count b \<ge> num_slots b)"

definition capacity :: "FrameBuffer \<Rightarrow> nat" where
  "capacity b = num_slots b"

text \<open>The loop of \<open>clear\<close> over the slot indices.\<close>

fun clear_slots :: "FrameSlot list \<Rightarrow> nat list \<Rightarrow> FrameSlot list" where
  "clear_slots ss [] = ss"
| "clear_slots ss (i # is) =
     clear_slots (ss[i := (ss ! i)\<lparr>occupied := False, reading := False\<rparr>]) is"

definition clear :: "FrameBuffer \<Rightarrow> FrameBuffer" where
  "clear b =
     (if \<not> initialized b then b
      else b\<lparr>slots := clear_slots (slots b) [0..<num_slots b],
             read_idx := 0, write_idx := 0, count := 0\<rparr>)"

definition reset_stats :: "FrameBuffer \<Rightarrow> FrameBuffer" where
  "reset_stats b = b\<lparr>frames_dropped := 0\<rparr>"

section \<open>Streaming service (\<^verbatim>\<open>core/streaming_service.hpp\<close>)\<close>

text \<open>
  The service's \<^verbatim>\<open>int64_t\<close> times (\<^verbatim>\<open>frame_interval_us_\<close>, \<^verbatim>\<open>next_capture_time\<close>,
  clock readings) are computed with, and signed overflow is undefined in C++: they are
  \<open>int\<close>, and an addition or subtraction whose result leaves the 64-bit range is the
  fault \<open>SignedOverflow\<close>. An integer division by zero is the fault \<open>DivideByZero\<close>.
  A faulting call has no return value and no result state.
\<close>

datatype fault = DivideByZero | SignedOverflow

definition i64 :: "int \<Rightarrow> bool" where
  "i64 x = (- (2 ^ 63) \<le> x \<and> x < 2 ^ 63)"

definition add_i64 :: "int \<Rightarrow> int \<Rightarrow> fault + int" where
  "add_i64 a b = (if i64 (a + b) then Inr (a + b) else Inl SignedOverflow)"

definition sub_i64 :: "int \<Rightarrow> int \<Rightarrow> fault + int" where
  "sub_i64 a b = (if i64 (a - b) then Inr (a - b) else Inl SignedOverflow)"

record StreamingConfig =
  target_fps :: "8 word"
  buffer_slots :: nat
  cfg_max_frame_size :: nat
  consumer_timeout_ms :: uint32

definition StreamingConfig_default :: StreamingConfig where
  "StreamingConfig_default =
     \<lparr>target_fps = 3, buffer_slots = 3, cfg_max_frame_size = 100 * 1024,
      consumer_timeout_ms = 1000\<rparr>"

record StreamingStats =
  frames_captured :: uint32
  frames_sent :: uint32
  stat_frames_dropped :: uint32
  capture_errors :: uint32
  producer_running :: bool

definition stats_reset :: "StreamingStats \<Rightarrow> StreamingStats" where
  "stats_reset st =
     st\<lparr>frames_captured := 0, frames_sent := 0, stat_frames_dropped := 0, capture_errors := 0\<rparr>"

text \<open>\<open>frame_ready\<close> is the binary semaphore of the ESP32 build (\<open>False\<close> for a null
  handle); the host build has a condition variable instead and never looks at it.\<close>

record StreamingService =
  buffer :: FrameBuffer
  config :: StreamingConfig
  stats :: StreamingStats
  frame_interval_us :: int
  stop_requested :: bool
  svc_initialized :: bool
  frame_ready :: bool

definition StreamingService_new :: StreamingService where
  "StreamingService_new =
     \<lparr>buffer = FrameBuffer_new, config = StreamingConfig_default,
      stats = \<lparr>frames_captured = 0, frames_sent = 0, stat_frames_dropped = 0,
               capture_errors = 0, producer_running = False\<rparr>,
      frame_interval_us = 333333, stop_requested = False, svc_initialized = False,
      frame_ready = False\<rparr>"

text \<open>\<open>StreamingService::init\<close>. \<open>sem_ok\<close> says whether the semaphore can be created
  (always so on the host build, which creates none).\<close>

definition svc_init ::
    "StreamingService \<Rightarrow> StreamingConfig \<Rightarrow> alloc_env \<Rightarrow> bool \<Rightarrow> fault + (bool \<times> StreamingService)" where
  "svc_init s cfg env sem_ok =
     (if svc_initialized s then Inr (True, s)
      else
        let s1 = s\<lparr>config := cfg\<rparr> in
        if target_fps (config s1) = 0 then Inl DivideByZero
        else
          let s2 = s1\<lparr>frame_interval_us := 1000000 div uint (target_fps (config s1))\<rparr>;
              (ok, b') = init (buffer s2) (buffer_slots (config s2))
                           (cfg_max_frame_size (config s2)) True env
          in if \<not> ok then Inr (False, s2\<lparr>buffer := b'\<rparr>)
             else if \<not> sem_ok then Inr (False, s2\<lparr>buffer := deinit b'\<rparr>)
             else Inr (True, s2\<lparr>buffer := b', frame_ready := True, svc_initialized := True\<rparr>))"

definition set_target_fps :: "StreamingService \<Rightarrow> 8 word \<Rightarrow> StreamingService" where
  "set_target_fps s fps =
     (if fps > 0 \<and> fps \<le> 30
      then s\<lparr>config := (config s)\<lparr>target_fps := fps\<rparr>,
             frame_interval_us := 1000000 div uint fps\<rparr>
      else s)"

definition get_target_fps :: "StreamingService \<Rightarrow> 8 word" where
  "get_target_fps s = target_fps (config s)"

text \<open>\<open>get_frame\<close> after its wait: \<open>woken\<close> is the outcome of the blocking part (the
  semaphore was taken; on the host, the buffer was seen non-empty and no stop was
  requested). The rest is the delegation to \<open>peek\<close>, with no timestamp pointer.\<close>

definition get_frame ::
    "StreamingService \<Rightarrow> bool \<Rightarrow> bool \<Rightarrow> bool \<Rightarrow> PeekOut option \<times> StreamingService" where
  "get_frame s data_p size_p woken =
     (if \<not> svc_initialized s \<or> \<not> data_p \<or> \<not> size_p then (None, s)
      else if \<not> woken then (None, s)
      else
        let (out, b') = peek (buffer s) data_p size_p False
        in (out, s\<lparr>buffer := b'\<rparr>))"

definition release_frame :: "StreamingService \<Rightarrow> StreamingService" where
  "release_frame s =
     (let s1 = s\<lparr>buffer := pop (buffer s)\<rparr>
      in s1\<lparr>stats := (stats s1)\<lparr>frames_sent := frames_sent (stats s1) + 1\<rparr>\<rparr>)"

definition buffered_frames :: "StreamingService \<Rightarrow> nat" where
  "buffered_frames s = available (buffer s)"

subsection \<open>The producer loop\<close>

record FrameView =
  fv_data :: "byte list option"
  fv_size :: nat
  fv_width :: uint32
  fv_height :: uint32
  fv_timestamp_us :: int64

definition valid :: "FrameView \<Rightarrow> bool" where
  "valid fv = (fv_data fv \<noteq> None \<and> fv_size fv > 0)"

text \<open>
  What the collaborators give to one turn of the loop: the clock reading at the top of
  the turn, the frame the camera returns if the turn captures, and the clock reading
  taken after the capture.
\<close>

record tick =
  now_top :: int
  captured :: FrameView
  now_after :: int

text \<open>
  The capturing part of a turn, from \<^verbatim>\<open>capture_frame()\<close> to the end of the
  \<^verbatim>\<open>if (frame.valid()) ... else ...\<close> statement: \<open>frame\<close> is what the camera returned.
\<close>

definition capture_step :: "StreamingService \<Rightarrow> FrameView \<Rightarrow> StreamingService" where
  "capture_step s frame =
     (if valid frame then
        let (pushed, b') = push (buffer s) (fv_data frame) (fv_size frame) (fv_timestamp_us frame);
            s' = s\<lparr>buffer := b'\<rparr>
        in if pushed then
             let st = (stats s')\<lparr>frames_captured := frames_captured (stats s') + 1\<rparr>;
                 buf_drops = frames_dropped (buffer s')
             in s'\<lparr>stats := (if buf_drops > stat_frames_dropped st
                              then st\<lparr>stat_frames_dropped := buf_drops\<rparr> else st)\<rparr>
           else s'
      else s\<lparr>stats := (stats s)\<lparr>capture_errors := capture_errors (stats s) + 1\<rparr>\<rparr>)"

text \<open>
  One turn of \<^verbatim>\<open>while (!stop_requested_)\<close>, from the service state and
  \<^verbatim>\<open>next_capture_time\<close> to the new ones and the delay requested from the clock, if any.
  In the sleeping branch the difference is positive, so the truncating division of C++
  is \<open>div\<close>.
\<close>

definition producer_iteration ::
    "StreamingService \<Rightarrow> int \<Rightarrow> tick \<Rightarrow> fault + (StreamingService \<times> int \<times> uint32 option)" where
  "producer_iteration s next_capture_time t =
     (let now = now_top t in
      if now < next_capture_time then
        (case sub_i64 next_capture_time now of
           Inl e \<Rightarrow> Inl e
         | Inr d \<Rightarrow>
             let sleep_ms = d div 1000
             in Inr (s, next_capture_time,
                     if sleep_ms > 0 then Some (word_of_int sleep_ms) else None))
      else
        let s1 = capture_step s (captured t)
        in (case add_i64 next_capture_time (frame_interval_us s1) of
              Inl e \<Rightarrow> Inl e
            | Inr next1 \<Rightarrow>
                let now = now_after t in
                if next1 < now then
                  (case add_i64 now (frame_interval_us s1) of
                     Inl e \<Rightarrow> Inl e
                   | Inr next2 \<Rightarrow> Inr (s1, next2, None))
                else Inr (s1, next1, None)))"

text \<open>The loop runs one turn per tick; the list ends where a stop request is seen.\<close>

fun producer_turns :: "StreamingService \<Rightarrow> int \<Rightarrow> tick list \<Rightarrow> fault + (StreamingService \<times> int)" where
  "producer_turns s next_capture_time [] = Inr (s, next_capture_time)"
| "producer_turns s next_capture_time (t # ts) =
     (case producer_iteration s next_capture_time t of
        Inl e \<Rightarrow> Inl e
      | Inr (s', next', _) \<Rightarrow> producer_turns s' next' ts)"

definition producer_loop :: "StreamingService \<Rightarrow> int \<Rightarrow> tick list \<Rightarrow> fault + StreamingService" where
  "producer_loop s now0 ts =
     (case producer_turns (s\<lparr>stats := (stats s)\<lparr>producer_running := True\<rparr>\<rparr>) now0 ts of
        Inl e \<Rightarrow> Inl e
      | Inr (s', _) \<Rightarrow> Inr (s'\<lparr>stats := (stats s')\<lparr>producer_running := False\<rparr>\<rparr>))"

section \<open>Operation sequences and what a client observes\<close>

datatype op =
    Push "byte list option" nat int64
  | Peek bool bool bool
  | Pop
  | Clear

text \<open>A push is well formed when its pointer, if not null, has \<open>size\<close> readable bytes.\<close>

fun op_wf :: "op \<Rightarrow> bool" where
  "op_wf (Push (Some src) sz ts) = (sz \<le> length src)"
| "op_wf _ = True"

text \<open>What a call returns to its caller: the result of \<open>push\<close>; for \<open>peek\<close>, the
  \<open>size\<close> bytes read through the returned pointer, the size and the timestamp.\<close>

datatype obs =
    PushRet bool
  | PeekRet "(byte list \<times> nat \<times> int64 option) option"
  | Done

fun exec :: "FrameBuffer \<Rightarrow> op \<Rightarrow> obs \<times> FrameBuffer" where
  "exec b (Push d sz ts) = (let (r, b') = push b d sz ts in (PushRet r, b'))"
| "exec b (Peek dp sp tp) =
     (let (out, b') = peek b dp sp tp
      in (PeekRet (map_option
                     (\<lambda>out. (take (out_size out) (deref b' (out_data out)), out_size out,
                             out_timestamp_us out)) out), b'))"
| "exec b Pop = (Done, pop b)"
| "exec b Clear = (Done, clear b)"

text \<open>The status queries, read after a call.\<close>

definition status :: "FrameBuffer \<Rightarrow> nat \<times> bool \<times> bool \<times> nat \<times> nat \<times> bool" where
  "status b = (available b, empty b, full b, capacity b, max_frame_size b, initialized b)"

fun run :: "FrameBuffer \<Rightarrow> op list \<Rightarrow> (obs \<times> (nat \<times> bool \<times> bool \<times> nat \<times> nat \<times> bool)) list \<times> FrameBuffer" where
  "run b [] = ([], b)"
| "run b (x # xs) =
     (let (r, b1) = exec b x; (rs, b2) = run b1 xs
      in ((r, status b1) # rs, b2))"

section \<open>Invariant and contents of the ring\<close>

text \<open>\<open>ring_pos b i\<close> is how far slot \<open>i\<close> lies after \<open>read_idx\<close>, going round the ring.\<close>

definition ring_pos :: "FrameBuffer \<Rightarrow> nat \<Rightarrow> nat" where
  "ring_pos b i = (i + num_slots b - read_idx b) mod num_slots b"

definition slot_inv :: "FrameBuffer \<Rightarrow> nat \<Rightarrow> bool" where
  "slot_inv b i =
     (let s = slots b ! i in
      slot_capacity s = max_frame_size b \<and> length (slot_data s) = max_frame_size b \<and>
      (occupied s \<longleftrightarrow> ring_pos b i < count b) \<and>
      (occupied s \<longrightarrow> 0 < slot_size s \<and> slot_size s \<le> max_frame_size b) \<and>
      (reading s \<longrightarrow> i = read_idx b \<and> 0 < count b))"

definition fb_inv :: "FrameBuffer \<Rightarrow> bool" where
  "fb_inv b =
     (if initialized b then
        0 < num_slots b \<and> 0 < max_frame_size b \<and> length (slots b) = num_slots b \<and>
        read_idx b < num_slots b \<and> count b \<le> num_slots b \<and>
        write_idx b = (read_idx b + count b) mod num_slots b \<and>
        (\<forall>i \<in> {0..<num_slots b}. slot_inv b i)
      else slots b = [] \<and> count b = 0 \<and> read_idx b = 0 \<and> write_idx b = 0)"

text \<open>The stored frames, read round the ring from \<open>read_idx\<close>: bytes, size, timestamp.\<close>

definition frame_of :: "FrameSlot \<Rightarrow> byte list \<times> nat \<times> int64" where
  "frame_of s = (take (slot_size s) (slot_data s), slot_size s, slot_timestamp_us s)"

definition frames :: "FrameBuffer \<Rightarrow> (byte list \<times> nat \<times> int64) list" where
  "frames b = map (\<lambda>k. frame_of (slots b ! ((read_idx b + k) mod num_slots b))) [0..<count b]"

section \<open>The ring as a bounded queue\<close>

text \<open>
  The queue the ring buffer implements, in the words of its contract: a list of at most
  \<open>cap\<close> frames, oldest first, and a flag \<open>held\<close> that is set while the oldest frame
  is being read. A push appends at the end; when the queue is full it first removes
  the oldest frame, unless that frame is held, in which case the new frame is discarded;
  both count as one drop. A pop removes the oldest frame. \<open>fifo_exec\<close> gives what a
  call returns, the number of drops it counts, and the queue after it.
\<close>

type_synonym frame = "byte list \<times> nat \<times> int64"

record fifo =
  cap :: nat
  max_size :: nat
  queue :: "frame list"
  held :: bool

fun fifo_exec :: "fifo \<Rightarrow> op \<Rightarrow> obs \<times> nat \<times> fifo" where
  "fifo_exec a (Push None sz ts) = (PushRet False, 0, a)"
| "fifo_exec a (Push (Some src) sz ts) =
     (if sz = 0 \<or> sz > max_size a then (PushRet False, 0, a)
      else if length (queue a) \<ge> cap a then
        (if held a then (PushRet True, 1, a)
         else (PushRet True, 1, a\<lparr>queue := tl (queue a) @ [(take sz src, sz, ts)]\<rparr>))
      else (PushRet True, 0, a\<lparr>queue := queue a @ [(take sz src, sz, ts)]\<rparr>))"
| "fifo_exec a (Peek dp sp tp) =
     (if \<not> dp \<or> \<not> sp \<or> queue a = [] then (PeekRet None, 0, a)
      else
        let (d, sz, ts) = hd (queue a)
        in (PeekRet (Some (d, sz, if tp then Some ts else None)), 0, a\<lparr>held := True\<rparr>))"
| "fifo_exec a Pop =
     (if queue a = [] then (Done, 0, a)
      else (Done, 0, a\<lparr>queue := tl (queue a), held := False\<rparr>))"
| "fifo_exec a Clear = (Done, 0, a\<lparr>queue := [], held := False\<rparr>)"

definition fifo_status :: "fifo \<Rightarrow> nat \<times> bool \<times> bool \<times> nat \<times> nat \<times> bool" where
  "fifo_status a =
     (length (queue a), queue a = [], length (queue a) \<ge> cap a, cap a, max_size a, True)"

fun fifo_run :: "fifo \<Rightarrow> op list \<Rightarrow> (obs \<times> (nat \<times> bool \<times> bool \<times> nat \<times> nat \<times> bool)) list \<times> nat \<times> fifo" where
  "fifo_run a [] = ([], 0, a)"
| "fifo_run a (x # xs) =
     (let (r, d1, a1) = fifo_exec a x; (rs, d2, a2) = fifo_run a1 xs
      in ((r, fifo_status a1) # rs, d1 + d2, a2))"

text \<open>The queue an initialized buffer stands for.\<close>

definition fifo_of :: "FrameBuffer \<Rightarrow> fifo" where
  "fifo_of b =
     \<lparr>cap = num_slots b, max_size = max_frame_size b, queue = frames b,
      held = reading (slots b ! read_idx b)\<rparr>"

text \<open>An allocator that never fails and hands out zeroed blocks of \<open>m\<close> bytes, and the
  buffer it gives: concrete values for examples.\<close>

definition zero_env :: "nat \<Rightarrow> alloc_env" where
  "zero_env m = \<lparr>new_slots_ok = True, malloc_buf = (\<lambda>_ _. Some (replicate m 0)), mutex_ok = True\<rparr>"

definition fresh :: "nat \<Rightarrow> nat \<Rightarrow> FrameBuffer" where
  "fresh n m = snd (init FrameBuffer_new n m True (zero_env m))"

section \<open>Concrete states for the examples\<close>

text \<open>A two-slot buffer filled by two pushes, whose oldest frame has been peeked and
  not popped; a service initialized at 10 frames per second on a two-slot buffer; and a
  turn of the producer whose capture returns long after the scheduled time.\<close>

definition held_full :: FrameBuffer where
  "held_full =
     snd (run (fresh 2 4) [Push (Some [1, 2, 3]) 3 10, Push (Some [4, 5]) 2 20, Peek True True True])"

definition small_config :: StreamingConfig where
  "small_config = \<lparr>target_fps = 10, buffer_slots = 2, cfg_max_frame_size = 4, consumer_timeout_ms = 1000\<rparr>"

definition idle_service :: StreamingService where
  "idle_service =
     (case svc_init StreamingService_new small_config (zero_env 4) True of
        Inr (_, s) \<Rightarrow> s | Inl _ \<Rightarrow> StreamingService_new)"

definition late_tick :: tick where
  "late_tick =
     \<lparr>now_top = 1000,
      captured = \<lparr>fv_data = Some [1, 2, 3], fv_size = 3, fv_width = 640, fv_height = 480,
                  fv_timestamp_us = 1200\<rparr>,
      now_after = 500000\<rparr>"

section \<open>Vocabulary of the properties\<close>

text \<open>
  \<open>blocks_ok\<close>: every block the allocator hands to \<open>init\<close> for a slot has the
  requested number of bytes. A pushed frame is given as the bytes at the pointer, the
  size and the timestamp; it is valid for a buffer when the size is positive, at most the
  maximum frame size, and within the bytes given. \<open>stored\<close> is what the buffer keeps of
  it, \<open>peeked\<close> what a \<open>peek\<close> with all three out-parameters returns for it.
  \<open>peek_pop n\<close> is \<open>n\<close> times a peek followed by a pop, and \<open>returns\<close> lists what the
  calls of a sequence return.
\<close>

definition blocks_ok :: "alloc_env \<Rightarrow> bool \<Rightarrow> nat \<Rightarrow> nat \<Rightarrow> bool" where
  "blocks_ok env p n m =
     (\<forall>i \<in> {0..<n}. case malloc_buf env p i of None \<Rightarrow> True | Some buf \<Rightarrow> length buf = m)"

type_synonym pushed = "byte list \<times> nat \<times> int64"

definition push_op :: "pushed \<Rightarrow> op" where
  "push_op f = (case f of (src, sz, ts) \<Rightarrow> Push (Some src) sz ts)"

definition valid_frame :: "nat \<Rightarrow> pushed \<Rightarrow> bool" where
  "valid_frame m f = (case f of (src, sz, ts) \<Rightarrow> 0 < sz \<and> sz \<le> m \<and> sz \<le> length src)"

definition stored :: "pushed \<Rightarrow> frame" where
  "stored f = (case f of (src, sz, ts) \<Rightarrow> (take sz src, sz, ts))"

definition peeked :: "pushed \<Rightarrow> obs" where
  "peeked f = (case f of (src, sz, ts) \<Rightarrow> PeekRet (Some (take sz src, sz, Some ts)))"

definition peek_pop :: "nat \<Rightarrow> op list" where
  "peek_pop n = concat (replicate n [Peek True True True, Pop])"

definition returns :: "FrameBuffer \<Rightarrow> op list \<Rightarrow> obs list" where
  "returns b xs = map fst (fst (run b xs))"

text \<open>The frames of the unit tests (\<^verbatim>\<open>make_test_frame\<close> in
  \<^verbatim>\<open>test/test_frame_buffer.cpp\<close>), the four frames of the overflow test, and a two-slot
  buffer after three pushes and a peek.\<close>

definition make_test_frame :: "nat \<Rightarrow> byte \<Rightarrow> byte list" where
  "make_test_frame n fill =
     (if n \<ge> 4 then [0xFF, 0xD8] @ replicate (n - 4) fill @ [0xFF, 0xD9] else replicate n fill)"

definition scenario_frames :: "pushed list" where
  "scenario_frames =
     [(make_test_frame 100 0x11, 100, 1000), (make_test_frame 200 0x22, 200, 2000),
      (make_test_frame 300 0x33, 300, 3000), (make_test_frame 400 0x44, 400, 4000)]"

definition overflowed :: FrameBuffer where
  "overflowed =
     snd (run (fresh 2 4)
            [Push (Some [1, 2, 3]) 3 10, Push (Some [4, 5]) 2 20, Push (Some [6]) 1 30,
             Peek True True True])"

section \<open>Allocation\<close>

lemma alloc_slots_map:
  "\<forall>i\<in>set is. m i \<noteq> None \<Longrightarrow>
   alloc_slots m sz is =
     Some (map (\<lambda>i. \<lparr>slot_data = the (m i), slot_capacity = sz, slot_size = 0,
                      slot_timestamp_us = 0, occupied = False, reading = False\<rparr>) is)"
  by (induction "is") auto

lemma alloc_slots_length:
  "alloc_slots m sz is = Some ss \<Longrightarrow> length ss = length is"
  by (induction "is" arbitrary: ss) (auto split: option.splits)

lemma alloc_slots_nth:
  "alloc_slots m sz is = Some ss \<Longrightarrow> k < length is \<Longrightarrow>
   m (is ! k) \<noteq> None \<and>
   ss ! k = \<lparr>slot_data = the (m (is ! k)), slot_capacity = sz, slot_size = 0,
             slot_timestamp_us = 0, occupied = False, reading = False\<rparr>"
proof (induction "is" arbitrary: ss k)
  case Nil
  then show ?case by simp
next
  case (Cons i "is")
  then show ?case by (cases k) (auto split: option.splits)
qed

lemma fresh_eq:
  "0 < n \<Longrightarrow> 0 < m \<Longrightarrow>
   fresh n m =
     \<lparr>slots = replicate n \<lparr>slot_data = replicate m 0, slot_capacity = m, slot_size = 0,
                            slot_timestamp_us = 0, occupied = False, reading = False\<rparr>,
      num_slots = n, max_frame_size = m, write_idx = 0, read_idx = 0, count = 0,
      frames_dropped = 0, initialized = True\<rparr>"
  by (simp add: fresh_def init_def FrameBuffer_new_def zero_env_def alloc_slots_map map_replicate_const)

lemma init_zero_env:
  "0 < n \<Longrightarrow> 0 < m \<Longrightarrow> init FrameBuffer_new n m p (zero_env m) = (True, fresh n m)"
  by (simp add: fresh_def init_def FrameBuffer_new_def zero_env_def alloc_slots_map)

lemma idle_service_eq:
  "idle_service =
     \<lparr>buffer = fresh 2 4, config = small_config,
      stats = \<lparr>frames_captured = 0, frames_sent = 0, stat_frames_dropped = 0,
               capture_errors = 0, producer_running = False\<rparr>,
      frame_interval_us = 100000, stop_requested = False, svc_initialized = True,
      frame_ready = True\<rparr>"
  by (simp add: idle_service_def svc_init_def StreamingService_new_def init_zero_env small_config_def)

section \<open>Arithmetic of the ring\<close>

text \<open>Going \<open>k < n\<close> steps round a ring of \<open>n\<close> slots from \<open>r\<close> and measuring the
  distance back are inverse to each other, so distinct offsets reach distinct slots.\<close>

lemma ring_back:
  assumes "r < n" "i < n"
  shows "(r + (i + n - r) mod n) mod n = (i::nat)"
proof -
  have "(r + (i + n - r) mod n) mod n = (r + (i + n - r)) mod n"
    by (simp add: mod_add_right_eq)
  also have "r + (i + n - r) = i + n" using assms by simp
  finally show ?thesis using assms by simp
qed

lemma ring_forth:
  assumes "r < n" "k < n"
  shows "((r + k) mod n + n - r) mod n = (k::nat)"
proof (cases "r + k < n")
  case True
  then show ?thesis using assms by simp
next
  case False
  then have "(r + k) mod n = r + k - n"
    using assms by (simp add: mod_if)
  then show ?thesis using assms False by simp
qed

lemma ring_inj:
  assumes "r < n" "k < n" "j < n" "(r + k) mod n = (r + j) mod (n::nat)"
  shows "k = j"
proof -
  have "k = ((r + k) mod n + n - r) mod n"
    by (rule ring_forth [OF assms(1,2), symmetric])
  also have "\<dots> = ((r + j) mod n + n - r) mod n"
    by (simp only: assms(4))
  also have "\<dots> = j"
    by (rule ring_forth [OF assms(1,3)])
  finally show ?thesis .
qed

lemma ring_pos_lt_iff:
  assumes "read_idx b < num_slots b" "i < num_slots b" "c \<le> num_slots b"
  shows "ring_pos b i < c \<longleftrightarrow> (\<exists>k<c. i = (read_idx b + k) mod num_slots b)"
proof
  assume "ring_pos b i < c"
  moreover have "i = (read_idx b + ring_pos b i) mod num_slots b"
    using assms by (simp add: ring_pos_def ring_back)
  ultimately show "\<exists>k<c. i = (read_idx b + k) mod num_slots b" by blast
next
  assume "\<exists>k<c. i = (read_idx b + k) mod num_slots b"
  then obtain k where k: "k < c" "i = (read_idx b + k) mod num_slots b" by blast
  then have "ring_pos b i = k"
    using assms by (simp add: ring_pos_def ring_forth)
  with k show "ring_pos b i < c" by simp
qed

lemma ring_next: "((r + 1) mod n + k) mod n = (r + Suc k) mod (n::nat)"
  by (simp add: mod_add_left_eq)

lemma ring_next_Suc: "(Suc r mod n + k) mod n = Suc (r + k) mod (n::nat)"
  using ring_next [of r n k] by simp

lemma ring_not_head:
  assumes "r < n" "Suc k < n"
  shows "(r + Suc k) mod n \<noteq> (r::nat)"
proof
  assume "(r + Suc k) mod n = r"
  then have "(r + Suc k) mod n = (r + 0) mod n" using assms(1) by simp
  then have "Suc k = 0" using assms by (intro ring_inj [of r n "Suc k" 0]) auto
  then show False by simp
qed

section \<open>Each operation on the invariant and the contents\<close>

text \<open>
  For each branch of each operation: the state it returns, that the invariant is kept,
  and what becomes of \<open>frames\<close>, of the drop counter and of the \<open>reading\<close> flag of
  the slot at \<open>read_idx\<close>. \<open>exec_refines\<close> collects them: on an initialized buffer
  satisfying the invariant every well-formed call returns what \<open>fifo_exec\<close> returns on
  the queue the buffer stands for, and leaves a buffer standing for the queue after it.
\<close>

lemma fb_invD:
  assumes "fb_inv b" "initialized b"
  shows "0 < num_slots b" "0 < max_frame_size b" "length (slots b) = num_slots b"
    "read_idx b < num_slots b" "count b \<le> num_slots b"
    "write_idx b = (read_idx b + count b) mod num_slots b"
    "\<And>i. i < num_slots b \<Longrightarrow> slot_inv b i"
  using assms by (simp_all add: fb_inv_def)

lemma fb_invI:
  assumes "initialized b" "0 < num_slots b" "0 < max_frame_size b"
    "length (slots b) = num_slots b" "read_idx b < num_slots b" "count b \<le> num_slots b"
    "write_idx b = (read_idx b + count b) mod num_slots b"
    "\<And>i. i < num_slots b \<Longrightarrow> slot_inv b i"
  shows "fb_inv b"
  using assms by (simp add: fb_inv_def)

lemma length_frames [simp]: "length (frames b) = count b"
  by (simp add: frames_def)

lemma frames_nth:
  "k < count b \<Longrightarrow> frames b ! k = frame_of (slots b ! ((read_idx b + k) mod num_slots b))"
  by (simp add: frames_def)

lemma push_store_eq:
  assumes "initialized b" "0 < sz" "sz \<le> max_frame_size b" "count b < num_slots b"
  shows "push b (Some src) sz ts =
    (True, b\<lparr>slots := (slots b)[write_idx b :=
                 (slots b ! write_idx b)\<lparr>slot_data := memcpy (slot_data (slots b ! write_idx b)) src sz,
                   slot_size := sz, slot_timestamp_us := ts, occupied := True, reading := False\<rparr>],
              write_idx := (write_idx b + 1) mod num_slots b,
              count := count b + 1\<rparr>)"
  using assms by (simp add: push_def Let_def)

lemma push_evict_eq:
  assumes "initialized b" "0 < sz" "sz \<le> max_frame_size b" "num_slots b \<le> count b"
    "\<not> reading (slots b ! read_idx b)"
  shows "push b (Some src) sz ts =
    (True, b\<lparr>slots := ((slots b)[read_idx b := (slots b ! read_idx b)\<lparr>occupied := False\<rparr>])
                [write_idx b :=
                 (((slots b)[read_idx b := (slots b ! read_idx b)\<lparr>occupied := False\<rparr>]) ! write_idx b)
                   \<lparr>slot_data := memcpy (slot_data (((slots b)[read_idx b := (slots b ! read_idx b)\<lparr>occupied := False\<rparr>]) ! write_idx b)) src sz,
                   slot_size := sz, slot_timestamp_us := ts, occupied := True, reading := False\<rparr>],
              read_idx := (read_idx b + 1) mod num_slots b,
              count := count b - 1 + 1,
              frames_dropped := frames_dropped b + 1,
              write_idx := (write_idx b + 1) mod num_slots b\<rparr>)"
  using assms by (simp add: push_def Let_def)

lemma push_drop_eq:
  assumes "initialized b" "0 < sz" "sz \<le> max_frame_size b" "num_slots b \<le> count b"
    "reading (slots b ! read_idx b)"
  shows "push b (Some src) sz ts = (True, b\<lparr>frames_dropped := frames_dropped b + 1\<rparr>)"
  using assms by (simp add: push_def Let_def)

lemma frame_of_written:
  "sz \<le> length src \<Longrightarrow>
   frame_of (s\<lparr>slot_data := memcpy (slot_data s) src sz, slot_size := sz,
               slot_timestamp_us := ts, occupied := True, reading := False\<rparr>) = (take sz src, sz, ts)"
  by (simp add: frame_of_def memcpy_def)

lemma length_memcpy:
  "n \<le> length src \<Longrightarrow> n \<le> length dst \<Longrightarrow> length (memcpy dst src n) = length dst"
  by (simp add: memcpy_def)

lemma push_store_refines:
  assumes inv: "fb_inv b" and ini: "initialized b"
    and sz: "0 < sz" "sz \<le> max_frame_size b" "sz \<le> length src"
    and room: "count b < num_slots b"
    and b': "b' = snd (push b (Some src) sz ts)"
  shows "fb_inv b'" "initialized b'" "frames b' = frames b @ [(take sz src, sz, ts)]"
    "frames_dropped b' = frames_dropped b"
    "reading (slots b' ! read_idx b') = reading (slots b ! read_idx b)"
    "num_slots b' = num_slots b" "max_frame_size b' = max_frame_size b"
    "fst (push b (Some src) sz ts) = True"
proof -
  note D = fb_invD [OF inv ini]
  let ?n = "num_slots b" and ?r = "read_idx b" and ?c = "count b" and ?w = "write_idx b"
  let ?new = "(slots b ! ?w)\<lparr>slot_data := memcpy (slot_data (slots b ! ?w)) src sz,
                   slot_size := sz, slot_timestamp_us := ts, occupied := True, reading := False\<rparr>"
  have eq: "push b (Some src) sz ts =
      (True, b\<lparr>slots := (slots b)[?w := ?new], write_idx := (?w + 1) mod ?n, count := ?c + 1\<rparr>)"
    by (rule push_store_eq [OF ini sz(1,2) room])
  have b'_eq: "b' = b\<lparr>slots := (slots b)[?w := ?new], write_idx := (?w + 1) mod ?n, count := ?c + 1\<rparr>"
    by (simp add: b' eq)
  have w: "?w < ?n" using D by simp
  have pos_w: "ring_pos b ?w = ?c"
    using D room by (simp add: ring_pos_def ring_forth)
  have pos_other: "ring_pos b i \<noteq> ?c" if "i < ?n" "i \<noteq> ?w" for i
  proof
    assume "ring_pos b i = ?c"
    then have "(?r + ?c) mod ?n = i"
      using D that ring_back [of ?r ?n i] by (simp add: ring_pos_def)
    with that D show False by simp
  qed
  show "initialized b'" using ini by (simp add: b'_eq)
  show "num_slots b' = num_slots b" "max_frame_size b' = max_frame_size b"
    "frames_dropped b' = frames_dropped b" "fst (push b (Some src) sz ts) = True"
    by (simp_all add: b'_eq eq)
  show "fb_inv b'"
  proof (rule fb_invI)
    show "write_idx b' = (read_idx b' + count b') mod num_slots b'"
      using D by (simp add: b'_eq mod_Suc_eq)
    fix i assume i: "i < num_slots b'"
    then have i': "i < ?n" by (simp add: b'_eq)
    have old: "slot_inv b i" using D(7) i' by simp
    have rp: "ring_pos b' i = ring_pos b i" by (simp add: ring_pos_def b'_eq)
    have nth: "slots b' ! i = (if i = ?w then ?new else slots b ! i)"
      using D(3) i' by (simp add: b'_eq)
    have sel: "max_frame_size b' = max_frame_size b" "count b' = Suc ?c" "read_idx b' = ?r"
      by (simp_all add: b'_eq)
    show "slot_inv b' i"
    proof (cases "i = ?w")
      case True
      have "ring_pos b i = ?c" using pos_w True by simp
      moreover have "length (memcpy (slot_data (slots b ! ?w)) src sz) = max_frame_size b"
        using old True sz by (simp add: slot_inv_def Let_def length_memcpy)
      moreover have "slot_capacity (slots b ! ?w) = max_frame_size b"
        using old True by (simp add: slot_inv_def Let_def)
      ultimately show ?thesis
        using True sz(1,2) unfolding slot_inv_def Let_def rp nth sel by simp
    next
      case False
      have "ring_pos b i \<noteq> ?c" by (rule pos_other [OF i' False])
      then have "ring_pos b i < Suc ?c \<longleftrightarrow> ring_pos b i < ?c" by arith
      then show ?thesis
        using old False unfolding slot_inv_def Let_def rp nth sel by auto
    qed
  qed (use D ini room in \<open>simp_all add: b'_eq\<close>)
  show "frames b' = frames b @ [(take sz src, sz, ts)]"
  proof (rule nth_equalityI)
    show "length (frames b') = length (frames b @ [(take sz src, sz, ts)])"
      by (simp add: b'_eq)
    fix k assume "k < length (frames b')"
    then have k: "k < ?c + 1" by (simp add: b'_eq)
    show "frames b' ! k = (frames b @ [(take sz src, sz, ts)]) ! k"
    proof (cases "k = ?c")
      case True
      then show ?thesis
        using D w sz by (simp add: frames_nth b'_eq nth_append frame_of_written)
    next
      case False
      with k have kc: "k < ?c" by simp
      have "(?r + k) mod ?n \<noteq> ?w"
      proof
        assume "(?r + k) mod ?n = ?w"
        then have "k = ?c" using D kc room ring_inj [of ?r ?n k ?c] by simp
        with kc show False by simp
      qed
      then show ?thesis
        using kc by (simp add: frames_nth b'_eq nth_append)
    qed
  qed
  show "reading (slots b' ! read_idx b') = reading (slots b ! read_idx b)"
  proof (cases "?r = ?w")
    case True
    have "slot_inv b ?r" using D by simp
    moreover have "?c = 0"
    proof -
      have "(?r + 0) mod ?n = ?r" using D(4) by simp
      also have "?r = ?w" by (rule True)
      also have "?w = (?r + ?c) mod ?n" by (rule D(6))
      finally have "(?r + 0) mod ?n = (?r + ?c) mod ?n" .
      then have "0 = ?c" by (rule ring_inj [OF D(4) D(1) room])
      then show ?thesis by simp
    qed
    ultimately have "\<not> reading (slots b ! ?r)" by (simp add: slot_inv_def Let_def)
    moreover have "\<not> reading (slots b' ! read_idx b')"
      using D(3) w by (simp add: b'_eq True)
    ultimately show ?thesis by simp
  next
    case False
    then show ?thesis by (simp add: b'_eq)
  qed
qed

lemma push_evict_refines:
  assumes inv: "fb_inv b" and ini: "initialized b"
    and sz: "0 < sz" "sz \<le> max_frame_size b" "sz \<le> length src"
    and full: "num_slots b \<le> count b"
    and free: "\<not> reading (slots b ! read_idx b)"
    and b': "b' = snd (push b (Some src) sz ts)"
  shows "fb_inv b'" "initialized b'" "frames b' = tl (frames b) @ [(take sz src, sz, ts)]"
    "frames_dropped b' = frames_dropped b + 1"
    "\<not> reading (slots b' ! read_idx b')"
    "num_slots b' = num_slots b" "max_frame_size b' = max_frame_size b"
    "fst (push b (Some src) sz ts) = True"
proof -
  note D = fb_invD [OF inv ini]
  let ?n = "num_slots b" and ?r = "read_idx b" and ?c = "count b" and ?w = "write_idx b"
  let ?new = "(slots b ! ?r)\<lparr>occupied := False\<rparr>\<lparr>slot_data := memcpy (slot_data (slots b ! ?r)) src sz,
                   slot_size := sz, slot_timestamp_us := ts, occupied := True, reading := False\<rparr>"
  have c: "?c = ?n" using D(5) full by simp
  have w: "?w = ?r" using D(4) by (simp add: D(6) c)
  have eq: "push b (Some src) sz ts =
      (True, b\<lparr>slots := (slots b)[?r := ?new], read_idx := (?r + 1) mod ?n, count := ?n,
                frames_dropped := frames_dropped b + 1, write_idx := (?r + 1) mod ?n\<rparr>)"
    using D(1,3,4) by (simp add: push_evict_eq [OF ini sz(1,2) full free] w c)
  have b'_eq: "b' = b\<lparr>slots := (slots b)[?r := ?new], read_idx := (?r + 1) mod ?n, count := ?n,
                frames_dropped := frames_dropped b + 1, write_idx := (?r + 1) mod ?n\<rparr>"
    by (simp add: b' eq)
  have sel: "max_frame_size b' = max_frame_size b" "count b' = ?n" "read_idx b' = (?r + 1) mod ?n"
    "num_slots b' = ?n" "length (slots b') = ?n" "initialized b' = initialized b"
    "frames_dropped b' = frames_dropped b + 1" "write_idx b' = (?r + 1) mod ?n"
    using D(3) by (simp_all add: b'_eq)
  have nth: "slots b' ! i = (if i = ?r then ?new else slots b ! i)" if "i < ?n" for i
    using D(3) that by (simp add: b'_eq)
  have quiet: "\<not> reading (slots b ! i)" if "i < ?n" for i
  proof (cases "i = ?r")
    case True
    then show ?thesis using free by simp
  next
    case False
    then show ?thesis using D(7) [OF that] by (simp add: slot_inv_def Let_def)
  qed
  show "initialized b'" using ini by (simp add: sel)
  show "num_slots b' = num_slots b" "max_frame_size b' = max_frame_size b"
    "frames_dropped b' = frames_dropped b + 1" "fst (push b (Some src) sz ts) = True"
    by (simp_all add: sel eq)
  have r': "(?r + 1) mod ?n < ?n" using D(1) by simp
  show "\<not> reading (slots b' ! read_idx b')"
    using quiet [OF r'] unfolding sel(3) nth [OF r'] by simp
  show "fb_inv b'"
  proof (rule fb_invI)
    show "write_idx b' = (read_idx b' + count b') mod num_slots b'"
      by (simp add: sel)
    fix i assume "i < num_slots b'"
    then have i: "i < ?n" by (simp add: sel)
    have old: "slot_inv b i" by (rule D(7) [OF i])
    have pos: "ring_pos b' i < ?n" using D(1) by (simp add: ring_pos_def sel)
    have occ: "occupied (slots b ! i)"
      using old D(1) by (simp add: slot_inv_def Let_def c ring_pos_def)
    show "slot_inv b' i"
    proof (cases "i = ?r")
      case True
      have "length (memcpy (slot_data (slots b ! ?r)) src sz) = max_frame_size b"
        using old True sz by (simp add: slot_inv_def Let_def length_memcpy)
      moreover have "slot_capacity (slots b ! ?r) = max_frame_size b"
        using old True by (simp add: slot_inv_def Let_def)
      ultimately show ?thesis
        using True sz(1,2) pos i unfolding slot_inv_def Let_def nth [OF i] sel by simp
    next
      case False
      then show ?thesis
        using old occ quiet [OF i] pos unfolding slot_inv_def Let_def nth [OF i] sel by simp
    qed
  qed (use D ini in \<open>simp_all add: sel\<close>)
  show "frames b' = tl (frames b) @ [(take sz src, sz, ts)]"
  proof (rule nth_equalityI)
    show "length (frames b') = length (tl (frames b) @ [(take sz src, sz, ts)])"
      using D(1) by (simp add: sel c)
    fix k assume "k < length (frames b')"
    then have k: "k < ?n" by (simp add: sel)
    have idx: "frames b' ! k = frame_of (slots b' ! ((?r + Suc k) mod ?n))"
      using k by (simp add: frames_nth sel ring_next_Suc)
    show "frames b' ! k = (tl (frames b) @ [(take sz src, sz, ts)]) ! k"
    proof (cases "Suc k = ?n")
      case True
      then have "(?r + Suc k) mod ?n = ?r" using D(4) by simp
      then have "frames b' ! k = (take sz src, sz, ts)"
        using sz(3) D(4) by (simp add: idx nth frame_of_written)
      moreover have "length (tl (frames b)) = k" using True by (simp add: c)
      then have "(tl (frames b) @ [(take sz src, sz, ts)]) ! k = (take sz src, sz, ts)"
        using nth_append_length [of "tl (frames b)" "(take sz src, sz, ts)"] by simp
      ultimately show ?thesis by simp
    next
      case False
      with k have sk: "Suc k < ?n" by simp
      have ne: "(?r + Suc k) mod ?n \<noteq> ?r" by (rule ring_not_head [OF D(4) sk])
      have lt: "(?r + Suc k) mod ?n < ?n" using D(1) by simp
      have "frames b' ! k = frame_of (slots b ! ((?r + Suc k) mod ?n))"
        unfolding idx nth [OF lt] using ne by simp
      also have "\<dots> = frames b ! Suc k" using sk by (simp add: frames_nth c)
      also have "\<dots> = tl (frames b) ! k" using sk by (simp add: nth_tl c)
      finally have "frames b' ! k = tl (frames b) ! k" .
      moreover have "k < length (tl (frames b))" using sk by (simp add: c)
      ultimately show ?thesis by (simp add: nth_append)
    qed
  qed
qed

lemma fb_inv_dropped [simp]: "fb_inv (b\<lparr>frames_dropped := x\<rparr>) = fb_inv b"
  by (simp add: fb_inv_def slot_inv_def ring_pos_def)

lemma frames_dropped_upd [simp]: "frames (b\<lparr>frames_dropped := x\<rparr>) = frames b"
  by (simp add: frames_def)

lemma pop_refines:
  assumes inv: "fb_inv b" and ini: "initialized b" and c: "0 < count b"
  shows "fb_inv (pop b)" "initialized (pop b)" "frames (pop b) = tl (frames b)"
    "frames_dropped (pop b) = frames_dropped b"
    "\<not> reading (slots (pop b) ! read_idx (pop b))"
    "num_slots (pop b) = num_slots b" "max_frame_size (pop b) = max_frame_size b"
proof -
  note D = fb_invD [OF inv ini]
  let ?n = "num_slots b" and ?r = "read_idx b" and ?c = "count b" and ?w = "write_idx b"
  let ?new = "(slots b ! ?r)\<lparr>occupied := False, reading := False\<rparr>"
  let ?b' = "pop b"
  have sel: "max_frame_size ?b' = max_frame_size b" "count ?b' = ?c - 1"
    "read_idx ?b' = (?r + 1) mod ?n"
    "num_slots ?b' = ?n" "length (slots ?b') = ?n" "initialized ?b' = initialized b"
    "frames_dropped ?b' = frames_dropped b" "write_idx ?b' = ?w"
    using ini c D(3) by (simp_all add: pop_def)
  have nth: "slots ?b' ! i = (if i = ?r then ?new else slots b ! i)" if "i < ?n" for i
    using D(3) that ini c by (simp add: pop_def)
  have quiet: "\<not> reading (slots ?b' ! i)" if "i < ?n" for i
    using D(7) [OF that] unfolding nth [OF that] by (auto simp: slot_inv_def Let_def)
  show "initialized ?b'" using ini by (simp add: sel)
  show "num_slots ?b' = num_slots b" "max_frame_size ?b' = max_frame_size b"
    "frames_dropped ?b' = frames_dropped b"
    by (simp_all add: sel)
  have r': "(?r + 1) mod ?n < ?n" using D(1) by simp
  show "\<not> reading (slots ?b' ! read_idx ?b')"
    using quiet [OF r'] unfolding sel(3) by simp
  have pos: "ring_pos ?b' i < ?c - 1 \<longleftrightarrow> i \<noteq> ?r \<and> ring_pos b i < ?c" if i: "i < ?n" for i
  proof -
    have "ring_pos ?b' i < ?c - 1 \<longleftrightarrow> (\<exists>k<?c - 1. i = (read_idx ?b' + k) mod num_slots ?b')"
      by (rule ring_pos_lt_iff) (use r' i D(5) in \<open>simp_all add: sel\<close>)
    then have "ring_pos ?b' i < ?c - 1 \<longleftrightarrow> (\<exists>k<?c - 1. i = (?r + Suc k) mod ?n)"
      unfolding sel ring_next .
    also have "\<dots> \<longleftrightarrow> i \<noteq> ?r \<and> (\<exists>j<?c. i = (?r + j) mod ?n)"
    proof
      assume "\<exists>k<?c - 1. i = (?r + Suc k) mod ?n"
      then obtain k where k: "k < ?c - 1" "i = (?r + Suc k) mod ?n" by blast
      then have "Suc k < ?n" "Suc k < ?c" using D(5) by simp_all
      then show "i \<noteq> ?r \<and> (\<exists>j<?c. i = (?r + j) mod ?n)"
        using k(2) ring_not_head [OF D(4), of k] by (intro conjI exI [of _ "Suc k"]) simp_all
    next
      assume a: "i \<noteq> ?r \<and> (\<exists>j<?c. i = (?r + j) mod ?n)"
      then obtain j where j: "j < ?c" "i = (?r + j) mod ?n" by blast
      have "j \<noteq> 0"
      proof
        assume "j = 0"
        then have "i = ?r" using j(2) D(4) by simp
        with a show False by simp
      qed
      then obtain k where "j = Suc k" by (cases j) auto
      then show "\<exists>k<?c - 1. i = (?r + Suc k) mod ?n"
        using j by (intro exI [of _ k]) simp
    qed
    also have "\<dots> \<longleftrightarrow> i \<noteq> ?r \<and> ring_pos b i < ?c"
      using ring_pos_lt_iff [of b i ?c] D(4,5) i by simp
    finally show ?thesis .
  qed
  show "fb_inv ?b'"
  proof (rule fb_invI)
    from c obtain c' where c': "?c = Suc c'" by (cases ?c) auto
    show "write_idx ?b' = (read_idx ?b' + count ?b') mod num_slots ?b'"
      by (simp add: sel D(6) c' ring_next_Suc)
    fix i assume "i < num_slots ?b'"
    then have i: "i < ?n" by (simp add: sel)
    have old: "slot_inv b i" by (rule D(7) [OF i])
    have q: "\<not> reading (slots ?b' ! i)" by (rule quiet [OF i])
    show "slot_inv ?b' i"
      using old pos [OF i] q
      unfolding slot_inv_def Let_def nth [OF i] sel(1,2,3,4)
      by (cases "i = ?r") simp_all
  qed (use D ini in \<open>simp_all add: sel\<close>)
  show "frames ?b' = tl (frames b)"
  proof (rule nth_equalityI)
    show "length (frames ?b') = length (tl (frames b))" by (simp add: sel)
    fix k assume "k < length (frames ?b')"
    then have k: "k < ?c - 1" by (simp add: sel)
    then have sk: "Suc k < ?n" "Suc k < ?c" using D(5) by simp_all
    have ne: "(?r + Suc k) mod ?n \<noteq> ?r" by (rule ring_not_head [OF D(4) sk(1)])
    have lt: "(?r + Suc k) mod ?n < ?n" using D(1) by simp
    have "frames ?b' ! k = frame_of (slots ?b' ! ((?r + Suc k) mod ?n))"
      using k by (simp add: frames_nth sel ring_next_Suc)
    also have "\<dots> = frame_of (slots b ! ((?r + Suc k) mod ?n))"
      unfolding nth [OF lt] using ne by simp
    also have "\<dots> = frames b ! Suc k" using sk by (simp add: frames_nth)
    also have "\<dots> = tl (frames b) ! k" using sk by (simp add: nth_tl)
    finally show "frames ?b' ! k = tl (frames b) ! k" .
  qed
qed

lemma push_reject_eq:
  "\<not> initialized b \<or> data = None \<or> sz = 0 \<or> sz > max_frame_size b \<Longrightarrow>
   push b data sz ts = (False, b)"
  by (auto simp: push_def split: option.splits)

lemma hd_frames:
  assumes "fb_inv b" "initialized b" "0 < count b"
  shows "hd (frames b) = frame_of (slots b ! read_idx b)"
proof -
  have "frames b \<noteq> []" using assms(3) by (simp add: frames_def)
  then have "hd (frames b) = frames b ! 0" by (rule hd_conv_nth)
  also have "\<dots> = frame_of (slots b ! read_idx b)"
    using assms(3) fb_invD(4) [OF assms(1,2)] by (simp add: frames_nth)
  finally show ?thesis .
qed

lemma peek_refines:
  assumes inv: "fb_inv b" and ini: "initialized b" and c: "0 < count b"
    and b': "b' = snd (peek b True True tp)"
  shows "fb_inv b'" "initialized b'" "frames b' = frames b"
    "frames_dropped b' = frames_dropped b"
    "reading (slots b' ! read_idx b')"
    "num_slots b' = num_slots b" "max_frame_size b' = max_frame_size b"
    "fst (peek b True True tp) =
       Some \<lparr>out_data = read_idx b, out_size = slot_size (slots b ! read_idx b),
             out_timestamp_us = (if tp then Some (slot_timestamp_us (slots b ! read_idx b)) else None)\<rparr>"
    "slot_data (slots b' ! read_idx b) = slot_data (slots b ! read_idx b)"
proof -
  note D = fb_invD [OF inv ini]
  let ?n = "num_slots b" and ?r = "read_idx b" and ?c = "count b"
  let ?new = "(slots b ! ?r)\<lparr>reading := True\<rparr>"
  have b'_eq: "b' = b\<lparr>slots := (slots b)[?r := ?new]\<rparr>"
    using ini c by (simp add: b' peek_def Let_def)
  have sel: "max_frame_size b' = max_frame_size b" "count b' = ?c" "read_idx b' = ?r"
    "num_slots b' = ?n" "length (slots b') = ?n" "initialized b' = initialized b"
    "frames_dropped b' = frames_dropped b" "write_idx b' = write_idx b"
    using D(3) by (simp_all add: b'_eq)
  have nth: "slots b' ! i = (if i = ?r then ?new else slots b ! i)" if "i < ?n" for i
    using D(3) that by (simp add: b'_eq)
  show "initialized b'" using ini by (simp add: sel)
  show "num_slots b' = num_slots b" "max_frame_size b' = max_frame_size b"
    "frames_dropped b' = frames_dropped b"
    by (simp_all add: sel)
  show "reading (slots b' ! read_idx b')"
    unfolding sel(3) nth [OF D(4)] by simp
  show "slot_data (slots b' ! read_idx b) = slot_data (slots b ! read_idx b)"
    unfolding nth [OF D(4)] by simp
  show "fst (peek b True True tp) =
       Some \<lparr>out_data = read_idx b, out_size = slot_size (slots b ! read_idx b),
             out_timestamp_us = (if tp then Some (slot_timestamp_us (slots b ! read_idx b)) else None)\<rparr>"
    using ini c by (simp add: peek_def Let_def)
  have fr: "frame_of (slots b' ! i) = frame_of (slots b ! i)" if "i < ?n" for i
    unfolding nth [OF that] by (simp add: frame_of_def)
  show "frames b' = frames b"
    using D(1) by (simp add: frames_def sel fr)
  show "fb_inv b'"
  proof (rule fb_invI)
    fix i assume "i < num_slots b'"
    then have i: "i < ?n" by (simp add: sel)
    have rp: "ring_pos b' i = ring_pos b i" by (simp add: ring_pos_def sel)
    show "slot_inv b' i"
      using D(7) [OF i] c
      unfolding slot_inv_def Let_def nth [OF i] sel(1,2,3,4) rp
      by (cases "i = ?r") simp_all
  qed (use D ini in \<open>simp_all add: sel\<close>)
qed

lemma peek_fail_eq:
  "\<not> initialized b \<or> \<not> dp \<or> \<not> sp \<or> count b = 0 \<Longrightarrow> peek b dp sp tp = (None, b)"
  by (auto simp: peek_def)

lemma pop_idle_eq: "\<not> initialized b \<or> count b = 0 \<Longrightarrow> pop b = b"
  by (auto simp: pop_def)

lemma length_clear_slots [simp]: "length (clear_slots ss is) = length ss"
  by (induction "is" arbitrary: ss) simp_all

lemma clear_slots_nth:
  assumes "distinct is" "j < length ss"
  shows "clear_slots ss is ! j =
    (if j \<in> set is then (ss ! j)\<lparr>occupied := False, reading := False\<rparr> else ss ! j)"
  using assms
proof (induction "is" arbitrary: ss)
  case Nil
  then show ?case by simp
next
  case (Cons i "is")
  let ?ss = "ss[i := (ss ! i)\<lparr>occupied := False, reading := False\<rparr>]"
  have "clear_slots ss (i # is) ! j = clear_slots ?ss is ! j" by simp
  also have "\<dots> = (if j \<in> set is then (?ss ! j)\<lparr>occupied := False, reading := False\<rparr> else ?ss ! j)"
    using Cons.prems by (intro Cons.IH) simp_all
  finally show ?case
    using Cons.prems by (cases "j = i") simp_all
qed

lemma clear_slots_all:
  "clear_slots ss [0..<length ss] = map (\<lambda>s. s\<lparr>occupied := False, reading := False\<rparr>) ss"
  by (rule nth_equalityI) (simp_all add: clear_slots_nth)

lemma clear_eq:
  assumes "initialized b" "length (slots b) = num_slots b"
  shows "clear b =
    b\<lparr>slots := map (\<lambda>s. s\<lparr>occupied := False, reading := False\<rparr>) (slots b),
      read_idx := 0, write_idx := 0, count := 0\<rparr>"
  using assms clear_slots_all [of "slots b"] by (simp add: clear_def)

lemma clear_refines:
  assumes inv: "fb_inv b" and ini: "initialized b"
  shows "fb_inv (clear b)" "initialized (clear b)" "frames (clear b) = []"
    "frames_dropped (clear b) = frames_dropped b"
    "\<not> reading (slots (clear b) ! read_idx (clear b))"
    "num_slots (clear b) = num_slots b" "max_frame_size (clear b) = max_frame_size b"
    "read_idx (clear b) = 0" "write_idx (clear b) = 0" "count (clear b) = 0"
proof -
  note D = fb_invD [OF inv ini]
  let ?b' = "clear b"
  have sel: "max_frame_size ?b' = max_frame_size b" "count ?b' = 0" "read_idx ?b' = 0"
    "num_slots ?b' = num_slots b" "length (slots ?b') = num_slots b"
    "initialized ?b' = initialized b"
    "frames_dropped ?b' = frames_dropped b" "write_idx ?b' = 0"
    using D(3) by (simp_all add: clear_eq [OF ini D(3)])
  have nth: "slots ?b' ! i = (slots b ! i)\<lparr>occupied := False, reading := False\<rparr>"
    if "i < num_slots b" for i
    using D(3) that by (simp add: clear_eq [OF ini D(3)])
  show "initialized ?b'" "frames (clear b) = []" "frames_dropped (clear b) = frames_dropped b"
    "num_slots (clear b) = num_slots b" "max_frame_size (clear b) = max_frame_size b"
    "read_idx (clear b) = 0" "write_idx (clear b) = 0" "count (clear b) = 0"
    using ini by (simp_all add: sel frames_def)
  show "\<not> reading (slots ?b' ! read_idx ?b')"
    unfolding sel(3) nth [OF D(1)] by simp
  show "fb_inv ?b'"
  proof (rule fb_invI)
    fix i assume "i < num_slots ?b'"
    then have i: "i < num_slots b" by (simp add: sel)
    show "slot_inv ?b' i"
      using D(7) [OF i]
      unfolding slot_inv_def Let_def nth [OF i] sel(1,2,3,4)
      by simp
  qed (use D ini in \<open>simp_all add: sel\<close>)
qed

lemma fifo_of_simps [simp]:
  "cap (fifo_of b) = num_slots b" "max_size (fifo_of b) = max_frame_size b"
  "queue (fifo_of b) = frames b" "held (fifo_of b) = reading (slots b ! read_idx b)"
  by (simp_all add: fifo_of_def)

lemma fifo_of_eqI:
  assumes "num_slots b' = cap a" "max_frame_size b' = max_size a" "frames b' = queue a"
    "reading (slots b' ! read_idx b') = held a"
  shows "fifo_of b' = a"
  using assms by (simp add: fifo_of_def)

lemma frames_Nil_iff [simp]: "frames b = [] \<longleftrightarrow> count b = 0"
  by (simp add: frames_def)

lemma exec_refines:
  assumes inv: "fb_inv b" and ini: "initialized b" and wf: "op_wf x"
  shows "fb_inv (snd (exec b x)) \<and> initialized (snd (exec b x)) \<and>
    fst (exec b x) = fst (fifo_exec (fifo_of b) x) \<and>
    fifo_of (snd (exec b x)) = snd (snd (fifo_exec (fifo_of b) x)) \<and>
    frames_dropped (snd (exec b x)) =
      frames_dropped b + of_nat (fst (snd (fifo_exec (fifo_of b) x)))"
proof (cases x)
  case (Push d sz ts)
  show ?thesis
  proof (cases d)
    case None
    then show ?thesis using inv ini Push by (simp add: push_reject_eq)
  next
    case (Some src)
    with wf Push have len: "sz \<le> length src" by simp
    consider (bad) "sz = 0 \<or> sz > max_frame_size b"
      | (store) "0 < sz" "sz \<le> max_frame_size b" "count b < num_slots b"
      | (drop) "0 < sz" "sz \<le> max_frame_size b" "num_slots b \<le> count b"
          "reading (slots b ! read_idx b)"
      | (evict) "0 < sz" "sz \<le> max_frame_size b" "num_slots b \<le> count b"
          "\<not> reading (slots b ! read_idx b)"
      by linarith
    then show ?thesis
    proof cases
      case bad
      then have "push b (Some src) sz ts = (False, b)" by (simp add: push_reject_eq)
      then show ?thesis using inv ini Push Some bad by auto
    next
      case store
      note R = push_store_refines [OF inv ini store(1,2) len store(3) refl, of ts]
      have "fifo_of (snd (push b (Some src) sz ts)) =
          (fifo_of b)\<lparr>queue := frames b @ [(take sz src, sz, ts)]\<rparr>"
        by (rule fifo_of_eqI) (simp_all add: R)
      then show ?thesis using R(1,2,4,8) store Push Some by (simp add: split_beta)
    next
      case drop
      have "push b (Some src) sz ts = (True, b\<lparr>frames_dropped := frames_dropped b + 1\<rparr>)"
        by (rule push_drop_eq [OF ini drop])
      moreover have "fifo_of (b\<lparr>frames_dropped := frames_dropped b + 1\<rparr>) = fifo_of b"
        by (simp add: fifo_of_def)
      ultimately show ?thesis using inv ini drop Push Some by (simp add: split_beta)
    next
      case evict
      note R = push_evict_refines [OF inv ini evict(1,2) len evict(3,4) refl, of ts]
      have "fifo_of (snd (push b (Some src) sz ts)) =
          (fifo_of b)\<lparr>queue := tl (frames b) @ [(take sz src, sz, ts)]\<rparr>"
        by (rule fifo_of_eqI) (use evict(4) in \<open>simp_all add: R\<close>)
      then show ?thesis using R(1,2,4,8) evict Push Some by (simp add: split_beta)
    qed
  qed
next
  case (Peek dp sp tp)
  show ?thesis
  proof (cases "dp \<and> sp \<and> 0 < count b")
    case False
    then have "peek b dp sp tp = (None, b)" by (intro peek_fail_eq) auto
    then show ?thesis using inv ini Peek False by auto
  next
    case True
    then have dp: "dp = True" "sp = True" and c: "0 < count b" by simp_all
    note R = peek_refines [OF inv ini c refl, of tp]
    have "fifo_of (snd (peek b True True tp)) = (fifo_of b)\<lparr>held := True\<rparr>"
      by (rule fifo_of_eqI) (simp_all add: R)
    moreover have "hd (frames b) = frame_of (slots b ! read_idx b)"
      by (rule hd_frames [OF inv ini c])
    ultimately show ?thesis
      using R(1,2,4,8,9) c Peek dp
      by (simp add: split_beta frame_of_def deref_def)
  qed
next
  case Pop
  show ?thesis
  proof (cases "0 < count b")
    case False
    then have "pop b = b" by (simp add: pop_idle_eq)
    then show ?thesis using inv ini Pop False by simp
  next
    case True
    note R = pop_refines [OF inv ini True]
    have "fifo_of (pop b) = (fifo_of b)\<lparr>queue := tl (frames b), held := False\<rparr>"
      by (rule fifo_of_eqI) (simp_all add: R)
    then show ?thesis using R(1,2,4) True Pop by simp
  qed
next
  case Clear
  note R = clear_refines [OF inv ini]
  have "fifo_of (clear b) = (fifo_of b)\<lparr>queue := [], held := False\<rparr>"
    by (rule fifo_of_eqI) (simp_all add: R(3,5,6,7))
  then show ?thesis using R(1,2,4) Clear by simp
qed

section \<open>Initialization establishes the invariant\<close>

lemma fb_inv_new: "fb_inv FrameBuffer_new"
  by (simp add: fb_inv_def FrameBuffer_new_def)

lemma fb_inv_deinit: "fb_inv (deinit b)"
  by (simp add: fb_inv_def deinit_def)

lemma init_cases:
  assumes "\<not> initialized b"
  shows "init b n m p env = (False, b) \<or>
    init b n m p env = (False, b\<lparr>num_slots := n, max_frame_size := m, slots := []\<rparr>) \<or>
    (\<exists>b1. init b n m p env = (False, deinit b1)) \<or>
    (\<exists>ss. 0 < n \<and> 0 < m \<and> alloc_slots (malloc_buf env p) m [0..<n] = Some ss \<and>
       init b n m p env = (True, b\<lparr>num_slots := n, max_frame_size := m, slots := ss, initialized := True\<rparr>))"
  using assms by (auto simp: init_def Let_def split: option.splits)

lemma init_success:
  assumes "init b n m p env = (True, b')" "\<not> initialized b"
  shows "\<exists>ss. 0 < n \<and> 0 < m \<and> alloc_slots (malloc_buf env p) m [0..<n] = Some ss \<and>
       b' = b\<lparr>num_slots := n, max_frame_size := m, slots := ss, initialized := True\<rparr>"
  using init_cases [OF assms(2), of n m p env] assms(1) by auto

lemma fresh_slot_inv:
  assumes inv: "fb_inv b" and un: "\<not> initialized b"
    and al: "alloc_slots (malloc_buf env p) m [0..<n] = Some ss"
    and ok: "blocks_ok env p n m" and pos: "0 < n" "0 < m"
    and b': "b' = b\<lparr>num_slots := n, max_frame_size := m, slots := ss, initialized := True\<rparr>"
  shows "fb_inv b'" "initialized b'" "frames b' = []" "count b' = 0"
    "\<not> reading (slots b' ! read_idx b')" "num_slots b' = n" "max_frame_size b' = m"
    "frames_dropped b' = frames_dropped b"
proof -
  have z: "count b = 0" "read_idx b = 0" "write_idx b = 0"
    using inv un by (simp_all add: fb_inv_def)
  have len: "length ss = n" using alloc_slots_length [OF al] by simp
  have nth: "malloc_buf env p i \<noteq> None \<and>
      ss ! i = \<lparr>slot_data = the (malloc_buf env p i), slot_capacity = m, slot_size = 0,
               slot_timestamp_us = 0, occupied = False, reading = False\<rparr>" if "i < n" for i
    using alloc_slots_nth [OF al, of i] that by simp
  have blk: "length (the (malloc_buf env p i)) = m" if "i < n" for i
    using ok nth [OF that] that by (auto simp: blocks_ok_def split: option.splits)
  show "initialized b'" "count b' = 0" "num_slots b' = n" "max_frame_size b' = m"
    "frames_dropped b' = frames_dropped b" "frames b' = []"
    by (simp_all add: b' z frames_def)
  show "\<not> reading (slots b' ! read_idx b')"
    using nth [OF pos(1)] by (simp add: b' z)
  show "fb_inv b'"
  proof (rule fb_invI)
    fix i assume "i < num_slots b'"
    then have i: "i < n" by (simp add: b')
    show "slot_inv b' i"
      using nth [OF i] blk [OF i] by (simp add: slot_inv_def b' z)
  qed (use pos len in \<open>simp_all add: b' z\<close>)
qed

lemma init_inv:
  assumes "fb_inv b" "blocks_ok env p n m"
  shows "fb_inv (snd (init b n m p env))"
proof (cases "initialized b")
  case True
  then show ?thesis using assms(1) by (simp add: init_def)
next
  case False
  have un: "slots b = []" "count b = 0" "read_idx b = 0" "write_idx b = 0"
    using assms(1) False by (simp_all add: fb_inv_def)
  from init_cases [OF False, of n m p env] show ?thesis
  proof (elim disjE exE conjE)
    assume "init b n m p env = (False, b)"
    then show ?thesis using assms(1) by simp
  next
    assume "init b n m p env = (False, b\<lparr>num_slots := n, max_frame_size := m, slots := []\<rparr>)"
    then show ?thesis using False un by (simp add: fb_inv_def)
  next
    fix b1 assume "init b n m p env = (False, deinit b1)"
    then show ?thesis by (simp add: fb_inv_deinit)
  next
    fix ss
    assume a: "0 < n" "0 < m" "alloc_slots (malloc_buf env p) m [0..<n] = Some ss"
      "init b n m p env = (True, b\<lparr>num_slots := n, max_frame_size := m, slots := ss, initialized := True\<rparr>)"
    show ?thesis
      using fresh_slot_inv(1) [OF assms(1) False a(3) assms(2) a(1,2) refl] a(4) by simp
  qed
qed

lemma init_fifo:
  assumes "init FrameBuffer_new n m p env = (True, b)" "blocks_ok env p n m"
  shows "fb_inv b" "initialized b" "frames_dropped b = 0" "num_slots b = n" "max_frame_size b = m"
    "fifo_of b = \<lparr>cap = n, max_size = m, queue = [], held = False\<rparr>" "0 < n" "0 < m" "count b = 0"
proof -
  have un: "\<not> initialized FrameBuffer_new" by (simp add: FrameBuffer_new_def)
  from init_success [OF assms(1) un] obtain ss where
    a: "0 < n" "0 < m" "alloc_slots (malloc_buf env p) m [0..<n] = Some ss"
      "b = FrameBuffer_new\<lparr>num_slots := n, max_frame_size := m, slots := ss, initialized := True\<rparr>"
    by blast
  note R = fresh_slot_inv [OF fb_inv_new un a(3) assms(2) a(1,2) a(4)]
  show "fb_inv b" "initialized b" "num_slots b = n" "max_frame_size b = m" "0 < n" "0 < m"
    "count b = 0"
    using R a(1,2) by simp_all
  show "frames_dropped b = 0" using R(8) by (simp add: FrameBuffer_new_def)
  show "fifo_of b = \<lparr>cap = n, max_size = m, queue = [], held = False\<rparr>"
    using R by (simp add: fifo_of_def)
qed

section \<open>Sequences of operations refine the queue\<close>

text \<open>The same for sequences of calls; in particular every state reached from a
  successful \<open>init\<close> by well-formed calls satisfies the invariant (\<open>reachable_inv\<close>).\<close>

lemma status_fifo:
  "initialized b \<Longrightarrow> status b = fifo_status (fifo_of b)"
  by (simp add: status_def fifo_status_def available_def empty_def full_def capacity_def)

lemma run_refines:
  assumes "fb_inv b" "initialized b" "\<forall>x\<in>set xs. op_wf x"
  shows "fb_inv (snd (run b xs)) \<and> initialized (snd (run b xs)) \<and>
    fst (run b xs) = fst (fifo_run (fifo_of b) xs) \<and>
    fifo_of (snd (run b xs)) = snd (snd (fifo_run (fifo_of b) xs)) \<and>
    frames_dropped (snd (run b xs)) =
      frames_dropped b + of_nat (fst (snd (fifo_run (fifo_of b) xs)))"
  using assms
proof (induction xs arbitrary: b)
  case Nil
  then show ?case by simp
next
  case (Cons x xs)
  from Cons.prems have wf: "op_wf x" and wfs: "\<forall>x\<in>set xs. op_wf x" by simp_all
  note E = exec_refines [OF Cons.prems(1,2) wf]
  let ?b1 = "snd (exec b x)"
  from E have inv1: "fb_inv ?b1" and ini1: "initialized ?b1" by simp_all
  note IH = Cons.IH [OF inv1 ini1 wfs]
  have st: "status ?b1 = fifo_status (fifo_of ?b1)" by (rule status_fifo [OF ini1])
  show ?case
    using E IH st by (simp add: split_beta)
qed

section \<open>Pushes and drains of the queue\<close>

lemma fifo_run_append:
  "fifo_run a (xs @ ys) =
     (let (r1, d1, a1) = fifo_run a xs; (r2, d2, a2) = fifo_run a1 ys
      in (r1 @ r2, d1 + d2, a2))"
  by (induction xs arbitrary: a) (simp_all add: split_beta)

lemma fifo_push_room:
  assumes "valid_frame (max_size a) f" "length (queue a) < cap a"
  shows "fifo_exec a (push_op f) = (PushRet True, 0, a\<lparr>queue := queue a @ [stored f]\<rparr>)"
  using assms by (cases f) (simp add: valid_frame_def push_op_def stored_def)

lemma fifo_push_evict:
  assumes "valid_frame (max_size a) f" "cap a \<le> length (queue a)" "\<not> held a"
  shows "fifo_exec a (push_op f) = (PushRet True, 1, a\<lparr>queue := tl (queue a) @ [stored f]\<rparr>)"
  using assms by (cases f) (simp add: valid_frame_def push_op_def stored_def)

lemma fifo_pushes_room:
  assumes "length (queue a) + length fs \<le> cap a" "\<forall>f\<in>set fs. valid_frame (max_size a) f"
  shows "map fst (fst (fifo_run a (map push_op fs))) = replicate (length fs) (PushRet True) \<and>
    snd (fifo_run a (map push_op fs)) = (0, a\<lparr>queue := queue a @ map stored fs\<rparr>)"
  using assms
proof (induction fs arbitrary: a)
  case Nil
  then show ?case by simp
next
  case (Cons f fs)
  let ?a1 = "a\<lparr>queue := queue a @ [stored f]\<rparr>"
  have e: "fifo_exec a (push_op f) = (PushRet True, 0, ?a1)"
    using Cons.prems by (intro fifo_push_room) simp_all
  have "length (queue ?a1) + length fs \<le> cap ?a1" "\<forall>f\<in>set fs. valid_frame (max_size ?a1) f"
    using Cons.prems by simp_all
  from Cons.IH [OF this] show ?case
    by (simp add: e split_beta)
qed

lemma fifo_drain:
  assumes "queue a = map stored fs"
  shows "map fst (fst (fifo_run a (peek_pop (length fs)))) = concat (map (\<lambda>f. [peeked f, Done]) fs)"
  using assms
proof (induction fs arbitrary: a)
  case Nil
  then show ?case by (simp add: peek_pop_def)
next
  case (Cons f fs)
  obtain src sz ts where f: "f = (src, sz, ts)" by (cases f)
  let ?a1 = "a\<lparr>held := True\<rparr>"
  let ?a2 = "a\<lparr>queue := map stored fs, held := False\<rparr>"
  have e1: "fifo_exec a (Peek True True True) = (peeked f, 0, ?a1)"
    using Cons.prems by (simp add: f stored_def peeked_def)
  have e2: "fifo_exec ?a1 Pop = (Done, 0, ?a2)"
    using Cons.prems by simp
  have pp: "peek_pop (length (f # fs)) = Peek True True True # Pop # peek_pop (length fs)"
    by (simp add: peek_pop_def)
  have step: "map fst (fst (fifo_run a (Peek True True True # Pop # rest))) =
      peeked f # Done # map fst (fst (fifo_run ?a2 rest))" for rest
    by (simp add: e1 e2 split_beta del: fifo_exec.simps)
  have "queue ?a2 = map stored fs" by simp
  from Cons.IH [OF this] show ?case
    unfolding pp step by simp
qed

lemma fifo_pushes_overflow:
  assumes "\<not> held a" "0 < cap a" "length (queue a) \<le> cap a"
    "\<forall>f\<in>set fs. valid_frame (max_size a) f"
  shows "map fst (fst (fifo_run a (map push_op fs))) = replicate (length fs) (PushRet True) \<and>
    fst (snd (fifo_run a (map push_op fs))) = length (queue a) + length fs - cap a \<and>
    snd (snd (fifo_run a (map push_op fs))) =
      a\<lparr>queue := drop (length (queue a) + length fs - cap a) (queue a @ map stored fs)\<rparr>"
  using assms
proof (induction fs arbitrary: a)
  case Nil
  then show ?case by simp
next
  case (Cons f fs)
  show ?case
  proof (cases "length (queue a) < cap a")
    case True
    let ?a1 = "a\<lparr>queue := queue a @ [stored f]\<rparr>"
    have e: "fifo_exec a (push_op f) = (PushRet True, 0, ?a1)"
      using Cons.prems True by (intro fifo_push_room) simp_all
    have "\<not> held ?a1" "0 < cap ?a1" "length (queue ?a1) \<le> cap ?a1"
      "\<forall>f\<in>set fs. valid_frame (max_size ?a1) f"
      using Cons.prems True by simp_all
    from Cons.IH [OF this] show ?thesis
      by (simp add: e split_beta)
  next
    case False
    then have full: "length (queue a) = cap a" using Cons.prems by simp
    then have ne: "queue a \<noteq> []" using Cons.prems(2) by auto
    let ?a1 = "a\<lparr>queue := tl (queue a) @ [stored f]\<rparr>"
    have e: "fifo_exec a (push_op f) = (PushRet True, 1, ?a1)"
      using Cons.prems full by (intro fifo_push_evict) simp_all
    have len1: "length (queue ?a1) = cap a" using full Cons.prems(2) by simp
    have p: "\<not> held ?a1" "0 < cap ?a1" "length (queue ?a1) \<le> cap ?a1"
      "\<forall>f\<in>set fs. valid_frame (max_size ?a1) f"
      using Cons.prems len1 by simp_all
    have dr: "drop (length fs) (tl (queue a) @ stored f # map stored fs) =
        drop (Suc (length fs)) (queue a @ stored f # map stored fs)"
      using ne by (cases "queue a") simp_all
    from Cons.IH [OF p] show ?thesis
      using full len1 dr by (simp add: e split_beta)
  qed
qed

lemma blocks_ok_zero_env: "blocks_ok (zero_env m) p n m"
  by (simp add: blocks_ok_def zero_env_def)

lemma fresh_facts:
  assumes "0 < n" "0 < m"
  shows "fb_inv (fresh n m)" "initialized (fresh n m)" "count (fresh n m) = 0"
    "num_slots (fresh n m) = n" "max_frame_size (fresh n m) = m" "frames_dropped (fresh n m) = 0"
  using init_fifo [OF init_zero_env [OF assms] blocks_ok_zero_env] by simp_all

lemma op_wf_push_op: "valid_frame m f \<Longrightarrow> op_wf (push_op f)"
  by (cases f) (simp add: valid_frame_def push_op_def)

lemma op_wf_peek_pop: "x \<in> set (peek_pop n) \<Longrightarrow> op_wf x"
  by (auto simp: peek_pop_def split: if_splits)

lemma length_make_test_frame [simp]: "length (make_test_frame n fill) = n"
  by (auto simp: make_test_frame_def)

lemma peeked_stored:
  "peeked f = PeekRet (Some (fst (stored f), fst (snd (stored f)), Some (snd (snd (stored f)))))"
  by (cases f) (simp add: peeked_def stored_def)

lemma run_pushes_overflow:
  assumes i: "init FrameBuffer_new c m p env = (True, b)" and ok: "blocks_ok env p c m"
    and v: "\<forall>f\<in>set fs. valid_frame m f"
  shows "returns b (map push_op fs) = replicate (length fs) (PushRet True)"
    "fb_inv (snd (run b (map push_op fs)))" "initialized (snd (run b (map push_op fs)))"
    "frames (snd (run b (map push_op fs))) = drop (length fs - c) (map stored fs)"
    "frames_dropped (snd (run b (map push_op fs))) = of_nat (length fs - c)"
proof -
  note I = init_fifo [OF i ok]
  let ?a = "fifo_of b" and ?xs = "map push_op fs"
  have wf: "\<forall>x\<in>set ?xs. op_wf x" using v by (auto intro: op_wf_push_op)
  note R = run_refines [OF I(1,2) wf]
  have pre: "\<not> held ?a" "0 < cap ?a" "length (queue ?a) \<le> cap ?a"
    "\<forall>f\<in>set fs. valid_frame (max_size ?a) f"
    using I v by simp_all
  note O = fifo_pushes_overflow [OF pre]
  show "returns b ?xs = replicate (length fs) (PushRet True)"
    using R O by (simp add: returns_def)
  show "fb_inv (snd (run b ?xs))" "initialized (snd (run b ?xs))" using R by simp_all
  have "queue (fifo_of (snd (run b ?xs))) = drop (length fs - c) (map stored fs)"
    using R O I by simp
  then show "frames (snd (run b ?xs)) = drop (length fs - c) (map stored fs)" by simp
  show "frames_dropped (snd (run b ?xs)) = of_nat (length fs - c)"
    using R O I by simp
qed

lemma fifo_exec_shape:
  "cap (snd (snd (fifo_exec a x))) = cap a \<and> max_size (snd (snd (fifo_exec a x))) = max_size a"
proof (cases x)
  case (Push d sz ts)
  then show ?thesis by (cases d) simp_all
qed (simp_all add: split_beta)

lemma fifo_run_shape:
  "cap (snd (snd (fifo_run a xs))) = cap a \<and> max_size (snd (snd (fifo_run a xs))) = max_size a"
proof (induction xs arbitrary: a)
  case Nil
  show ?case by simp
next
  case (Cons x xs)
  show ?case
    using Cons [of "snd (snd (fifo_exec a x))"] fifo_exec_shape [of a x]
    by (simp add: split_beta)
qed

lemma run_shape:
  assumes "fb_inv b" "initialized b" "\<forall>x\<in>set xs. op_wf x"
  shows "num_slots (snd (run b xs)) = num_slots b" "max_frame_size (snd (run b xs)) = max_frame_size b"
proof -
  have "fifo_of (snd (run b xs)) = snd (snd (fifo_run (fifo_of b) xs))"
    using run_refines [OF assms] by simp
  then have "cap (fifo_of (snd (run b xs))) = cap (fifo_of b)"
    "max_size (fifo_of (snd (run b xs))) = max_size (fifo_of b)"
    using fifo_run_shape [of "fifo_of b" xs] by simp_all
  then show "num_slots (snd (run b xs)) = num_slots b"
    "max_frame_size (snd (run b xs)) = max_frame_size b"
    by simp_all
qed

lemma reachable_inv:
  assumes "init FrameBuffer_new n m p env = (True, b)" "blocks_ok env p n m"
    "\<forall>x\<in>set xs. op_wf x"
  shows "fb_inv (snd (run b xs))" "initialized (snd (run b xs))"
  using run_refines [OF init_fifo(1,2) [OF assms(1,2)] assms(3)] by simp_all

lemma overflowed_shape: "num_slots overflowed = 2" "max_frame_size overflowed = 4"
proof -
  have f: "fb_inv (fresh 2 4)" "initialized (fresh 2 4)" by (simp_all add: fresh_facts)
  have "\<forall>x\<in>set [Push (Some [1, 2, 3]) 3 10, Push (Some [4, 5]) 2 20, Push (Some [6]) 1 30,
             Peek True True True]. op_wf x"
    by simp
  from run_shape [OF f this] show "num_slots overflowed = 2" "max_frame_size overflowed = 4"
    by (simp_all add: overflowed_def fresh_facts)
qed

section \<open>Consequences of the invariant\<close>

lemma exec_uninitialized:
  "\<not> initialized b \<Longrightarrow> snd (exec b x) = b"
  by (cases x) (simp_all add: push_reject_eq peek_fail_eq pop_idle_eq clear_def)

lemma ring_pos_head:
  assumes "read_idx b < num_slots b"
  shows "ring_pos b (read_idx b) = 0"
  using assms by (simp add: ring_pos_def)

lemma inv_occupied:
  assumes "fb_inv b" "initialized b" "i < num_slots b"
  shows "occupied (slots b ! i) \<longleftrightarrow> ring_pos b i < count b"
  using fb_invD(7) [OF assms] by (simp add: slot_inv_def Let_def)

lemma inv_reading:
  assumes "fb_inv b" "initialized b" "i < num_slots b" "reading (slots b ! i)"
  shows "i = read_idx b"
  using fb_invD(7) [OF assms(1,2,3)] assms(4) by (simp add: slot_inv_def Let_def)

lemma inv_empty_iff:
  assumes "fb_inv b" "initialized b"
  shows "count b = 0 \<longleftrightarrow> (\<forall>i<num_slots b. \<not> occupied (slots b ! i))"
proof
  assume "count b = 0"
  then show "\<forall>i<num_slots b. \<not> occupied (slots b ! i)"
    using inv_occupied [OF assms] by simp
next
  assume none: "\<forall>i<num_slots b. \<not> occupied (slots b ! i)"
  have r: "read_idx b < num_slots b" by (rule fb_invD(4) [OF assms])
  have "\<not> occupied (slots b ! read_idx b)" using none r by simp
  then have "\<not> ring_pos b (read_idx b) < count b"
    using inv_occupied [OF assms r] by simp
  then show "count b = 0" by (simp add: ring_pos_head [OF r])
qed

lemma overflowed_facts: "fb_inv overflowed" "initialized overflowed"
proof -
  have f: "fb_inv (fresh 2 4)" "initialized (fresh 2 4)" by (simp_all add: fresh_facts)
  have "\<forall>x\<in>set [Push (Some [1, 2, 3]) 3 10, Push (Some [4, 5]) 2 20, Push (Some [6]) 1 30,
             Peek True True True]. op_wf x"
    by simp
  from run_refines [OF f this] show "fb_inv overflowed" "initialized overflowed"
    by (simp_all add: overflowed_def)
qed

section \<open>The service\<close>

lemma word_lt_succ: "x \<noteq> - 1 \<Longrightarrow> x < x + (1::32 word)"
  using inc_less_eq_triv_imp [of x] by (auto simp: not_le [symmetric])

lemma capture_step_interval [simp]:
  "frame_interval_us (capture_step s frame) = frame_interval_us s"
  by (simp add: capture_step_def Let_def split_beta)

section \<open>First in, first out\<close>

text \<open>
  C1. On an initialized empty buffer (one that satisfies the invariant, as every
  reachable state does), \<open>N\<close> valid pushes with \<open>N\<close> at most the capacity, followed by
  \<open>N\<close> peek/pop pairs: every push returns success, and the \<open>k\<close>-th peek returns the size
  and the timestamp given to the \<open>k\<close>-th push and, through its pointer, the \<open>size\<close> bytes
  given to it. The frames surface in push order, unmodified.
\<close>

theorem fifo_order:
  assumes "fb_inv b" and "initialized b" and "count b = 0"
    and "length fs \<le> num_slots b"
    and "\<forall>f\<in>set fs. valid_frame (max_frame_size b) f"
  shows "returns b (map push_op fs @ peek_pop (length fs)) =
    replicate (length fs) (PushRet True) @ concat (map (\<lambda>f. [peeked f, Done]) fs)"
proof -
  let ?a = "fifo_of b"
  have wf: "\<forall>x\<in>set (map push_op fs @ peek_pop (length fs)). op_wf x"
    using assms(5) by (auto intro: op_wf_push_op op_wf_peek_pop)
  have r: "returns b (map push_op fs @ peek_pop (length fs)) =
      map fst (fst (fifo_run ?a (map push_op fs @ peek_pop (length fs))))"
    using run_refines [OF assms(1,2) wf] by (simp add: returns_def)
  have q: "queue ?a = []" using assms(3) by simp
  have room: "length (queue ?a) + length fs \<le> cap ?a" "\<forall>f\<in>set fs. valid_frame (max_size ?a) f"
    using assms(4,5) q by simp_all
  note P = fifo_pushes_room [OF room]
  let ?a1 = "?a\<lparr>queue := queue ?a @ map stored fs\<rparr>"
  have "queue ?a1 = map stored fs" using q by simp
  note D = fifo_drain [OF this]
  from P have a1: "snd (snd (fifo_run ?a (map push_op fs))) = ?a1" by simp
  show ?thesis
    unfolding r fifo_run_append using P D by (simp add: split_beta a1)
qed

theorem fifo_order_witness:
  "returns (fresh 3 8)
     [Push (Some [1, 2]) 2 100, Push (Some [3, 4, 5]) 3 200, Push (Some [6]) 1 300,
      Peek True True True, Pop, Peek True True True, Pop, Peek True True True, Pop] =
   [PushRet True, PushRet True, PushRet True,
    PeekRet (Some ([1, 2], 2, Some 100)), Done,
    PeekRet (Some ([3, 4, 5], 3, Some 200)), Done,
    PeekRet (Some ([6], 1, Some 300)), Done]"
proof -
  let ?fs = "[([1, 2], 2, 100), ([3, 4, 5], 3, 200), ([6], 1, 300)] :: pushed list"
  have h: "fb_inv (fresh 3 8)" "initialized (fresh 3 8)" "count (fresh 3 8) = 0"
    by (simp_all add: fresh_facts)
  have n: "length ?fs \<le> num_slots (fresh 3 8)"
    "\<forall>f\<in>set ?fs. valid_frame (max_frame_size (fresh 3 8)) f"
    by (simp_all add: fresh_facts valid_frame_def)
  have ops: "map push_op ?fs @ peek_pop (length ?fs) =
     [Push (Some [1, 2]) 2 100, Push (Some [3, 4, 5]) 3 200, Push (Some [6]) 1 300,
      Peek True True True, Pop, Peek True True True, Pop, Peek True True True, Pop]"
    by (simp add: push_op_def peek_pop_def)
  have res: "replicate (length ?fs) (PushRet True) @ concat (map (\<lambda>f. [peeked f, Done]) ?fs) =
     [PushRet True, PushRet True, PushRet True,
      PeekRet (Some ([1, 2], 2, Some 100)), Done,
      PeekRet (Some ([3, 4, 5], 3, Some 200)), Done,
      PeekRet (Some ([6], 1, Some 300)), Done]"
    by (simp add: peeked_def)
  show ?thesis
    using fifo_order [OF h n] unfolding ops res .
qed

section \<open>Overflow\<close>

text \<open>
  C2, as the code has it. On a freshly initialized buffer of capacity \<open>c\<close>, after
  \<open>K > c\<close> valid pushes with no pop or peek in between: every push returned success,
  \<open>available()\<close> is \<open>c\<close>, and \<open>frames_dropped()\<close>, a \<^verbatim>\<open>uint32_t\<close>, reads
  \<open>(K - c) mod 2^32\<close>, which is \<open>K - c\<close> as long as \<open>K - c < 2^32\<close>; a peek then yields
  the frame of push number \<open>K - c\<close> (counting from 0), the oldest of the last \<open>c\<close>.
  With capacity 3 and pushes of sizes 100, 200, 300, 400 this gives 3 available, 1
  dropped, and the frame of size 200.
\<close>

theorem overflow_drops_oldest:
  assumes "init FrameBuffer_new c m p env = (True, b)" and "blocks_ok env p c m"
    and "c < length fs" and "\<forall>f\<in>set fs. valid_frame m f"
  shows "returns b (map push_op fs) = replicate (length fs) (PushRet True) \<and>
    available (snd (run b (map push_op fs))) = c \<and>
    unat (frames_dropped (snd (run b (map push_op fs)))) = (length fs - c) mod 2 ^ 32 \<and>
    (length fs - c < 2 ^ 32 \<longrightarrow>
       unat (frames_dropped (snd (run b (map push_op fs)))) = length fs - c) \<and>
    fst (exec (snd (run b (map push_op fs))) (Peek True True True)) = peeked (fs ! (length fs - c))"
proof -
  note R = run_pushes_overflow [OF assms(1,2,4)]
  let ?b' = "snd (run b (map push_op fs))"
  have cnt: "count ?b' = c"
    using R(4) assms(3) length_frames [of ?b'] by simp
  have dr: "unat (frames_dropped ?b') = (length fs - c) mod 2 ^ 32"
    by (simp add: R(5) unat_of_nat)
  have "0 < c" by (rule init_fifo(7) [OF assms(1,2)])
  then have lt: "length fs - c < length fs" using assms(3) by simp
  then have "hd (frames ?b') = stored (fs ! (length fs - c))"
    by (simp add: R(4) hd_drop_conv_nth)
  moreover have "frames ?b' \<noteq> []" using lt by (simp add: R(4) del: frames_Nil_iff)
  moreover have "fst (exec ?b' (Peek True True True)) = fst (fifo_exec (fifo_of ?b') (Peek True True True))"
    using exec_refines [OF R(2,3), of "Peek True True True"] by simp
  ultimately have pk: "fst (exec ?b' (Peek True True True)) = peeked (fs ! (length fs - c))"
    by (simp add: peeked_stored split_beta del: frames_Nil_iff)
  show ?thesis
    using R(1) cnt dr pk by (simp add: available_def)
qed

theorem overflow_drops_oldest_witness:
  "returns (fresh 3 4096) (map push_op scenario_frames) =
     [PushRet True, PushRet True, PushRet True, PushRet True] \<and>
   available (snd (run (fresh 3 4096) (map push_op scenario_frames))) = 3 \<and>
   unat (frames_dropped (snd (run (fresh 3 4096) (map push_op scenario_frames)))) = 1 \<and>
   fst (exec (snd (run (fresh 3 4096) (map push_op scenario_frames))) (Peek True True True)) =
     PeekRet (Some (make_test_frame 200 0x22, 200, Some 2000))"
proof -
  have i: "init FrameBuffer_new 3 4096 True (zero_env 4096) = (True, fresh 3 4096)"
    by (simp add: init_zero_env)
  have v: "\<forall>f\<in>set scenario_frames. valid_frame 4096 f" "3 < length scenario_frames"
    by (simp_all add: scenario_frames_def valid_frame_def)
  have l: "length scenario_frames = 4"
    "scenario_frames ! (4 - 3) = (make_test_frame 200 0x22, 200, 2000)"
    by (simp_all add: scenario_frames_def)
  have r: "replicate 4 (PushRet True) = [PushRet True, PushRet True, PushRet True, PushRet True]"
    by (simp add: numeral_Bit0 numeral_eq_Suc)
  show ?thesis
    using overflow_drops_oldest [OF i blocks_ok_zero_env v(2,1)]
    unfolding l r by (simp add: peeked_def)
qed

text \<open>
  C2 with \<open>frames_dropped()\<close> equal to \<open>K - c\<close> for every \<open>K\<close> does not hold, because
  the drop counter wraps: on a fresh buffer of capacity 1, after \<open>2^32 + 1\<close> valid pushes
  it does not read \<open>K - c = 2^32\<close>.
\<close>

theorem dropped_counter_wraps_counterexample:
  "unat (frames_dropped (snd (run (fresh 1 4) (map push_op (replicate (2 ^ 32 + 1) ([1], 1, 0))))))
     \<noteq> (2 ^ 32 + 1) - 1"
proof -
  have i: "init FrameBuffer_new 1 4 True (zero_env 4) = (True, fresh 1 4)"
    by (simp add: init_zero_env)
  have v: "\<forall>f\<in>set (replicate (2 ^ 32 + 1) ([1], 1, 0)). valid_frame 4 f"
    by (simp add: valid_frame_def)
  have "frames_dropped (snd (run (fresh 1 4) (map push_op (replicate (2 ^ 32 + 1) ([1], 1, 0)))))
      = (of_nat (2 ^ 32) :: 32 word)"
    using run_pushes_overflow(5) [OF i blocks_ok_zero_env v] by simp
  then show ?thesis by (simp add: unat_of_nat)
qed

section \<open>A push onto a full buffer whose oldest frame is being read\<close>

text \<open>
  C3. On a full buffer whose oldest slot (the slot at \<open>read_idx\<close>) is marked
  \<open>reading\<close>, that is, has been peeked and not yet popped, a push of a valid size
  returns success and changes nothing but the drop counter, which it increments by one
  (as a \<^verbatim>\<open>uint32_t\<close>): \<open>available()\<close>, \<open>read_idx\<close> and every slot are as before, so
  the bytes seen through the pointer the peek returned, and the size and timestamp it
  returned, are still those of the slot.
\<close>

theorem push_onto_held_full:
  assumes "full b" and "reading (slots b ! read_idx b)" and "0 < sz" and "sz \<le> max_frame_size b"
  shows "fst (push b (Some src) sz ts) = True \<and>
    snd (push b (Some src) sz ts) = b\<lparr>frames_dropped := frames_dropped b + 1\<rparr> \<and>
    frames_dropped (snd (push b (Some src) sz ts)) = frames_dropped b + 1 \<and>
    available (snd (push b (Some src) sz ts)) = available b \<and>
    read_idx (snd (push b (Some src) sz ts)) = read_idx b \<and>
    slots (snd (push b (Some src) sz ts)) = slots b \<and>
    deref (snd (push b (Some src) sz ts)) (read_idx b) = deref b (read_idx b)"
  using assms by (simp add: push_def full_def available_def deref_def)

theorem push_onto_held_full_witness:
  "fst (push held_full (Some [9]) 1 30) = True \<and>
   snd (push held_full (Some [9]) 1 30) = held_full\<lparr>frames_dropped := 1\<rparr> \<and>
   available (snd (push held_full (Some [9]) 1 30)) = 2 \<and>
   deref (snd (push held_full (Some [9]) 1 30)) 0 = [1, 2, 3, 0]"
proof -
  have h: "full held_full" "reading (slots held_full ! read_idx held_full)"
    "(1::nat) \<le> max_frame_size held_full"
    by code_simp+
  have v: "frames_dropped held_full = 0" "count held_full = 2" "read_idx held_full = 0"
    "slot_data (slots held_full ! 0) = [1, 2, 3, 0]"
    by code_simp+
  show ?thesis
    using push_onto_held_full [OF h(1,2) _ h(3), of "[9]" 30] v
    by (simp add: available_def deref_def)
qed

section \<open>The rate is not checked by init\<close>

text \<open>
  C4. \<open>init\<close> does not look at the rate before it divides by it. On a fresh service a
  configuration with \<open>target_fps = 0\<close> is stored and then \<^verbatim>\<open>1000000 / 0\<close> is computed:
  the call faults instead of returning failure. \<open>set_target_fps\<close>, which sets the same
  two fields, accepts only rates from 1 to 30 and ignores 0 and 31; \<open>init\<close> accepts 31.
\<close>

theorem svc_init_unchecked_rate:
  "svc_init StreamingService_new (cfg\<lparr>target_fps := 0\<rparr>) env sem_ok = Inl DivideByZero \<and>
   set_target_fps s 0 = s \<and> set_target_fps s 31 = s \<and>
   (\<exists>s'. svc_init StreamingService_new (small_config\<lparr>target_fps := 31\<rparr>) (zero_env 4) True
            = Inr (True, s'))"
  by (simp add: svc_init_def StreamingService_new_def set_target_fps_def small_config_def
      init_zero_env)

section \<open>The invariants of the ring\<close>

text \<open>
  C5. The invariant \<open>fb_inv\<close> holds of a default-constructed buffer and of the buffer
  \<open>init\<close> returns, and push, peek, pop and clear preserve it. In an initialized buffer
  that satisfies it: \<open>count\<close> is at most \<open>num_slots\<close>; \<open>count\<close> is zero exactly when
  \<open>empty()\<close> holds, and exactly when no slot is occupied; the occupied slots are the
  \<open>count\<close> slots that follow \<open>read_idx\<close> round the ring, and every slot marked
  \<open>reading\<close> is the slot at \<open>read_idx\<close>, so at most one is. The frames listed round the
  ring from \<open>read_idx\<close> behave as the queue \<open>fifo_exec\<close>: each stored push appends at the
  end, each pop and each eviction removes the first, so the list is in order of arrival
  and its first entry, the slot at \<open>read_idx\<close>, is the oldest occupied slot.
\<close>

theorem ring_invariants:
  assumes "fb_inv b" and "op_wf x"
  shows "fb_inv FrameBuffer_new \<and>
    (blocks_ok env p n m \<longrightarrow> fb_inv (snd (init FrameBuffer_new n m p env))) \<and>
    fb_inv (snd (exec b x)) \<and>
    (initialized b \<longrightarrow>
       count b \<le> num_slots b \<and>
       (empty b \<longleftrightarrow> count b = 0) \<and>
       (count b = 0 \<longleftrightarrow> (\<forall>i<num_slots b. \<not> occupied (slots b ! i))) \<and>
       (\<forall>i<num_slots b. occupied (slots b ! i) \<longleftrightarrow> ring_pos b i < count b) \<and>
       (0 < count b \<longrightarrow> hd (frames b) = frame_of (slots b ! read_idx b)) \<and>
       (\<forall>i<num_slots b. reading (slots b ! i) \<longrightarrow> i = read_idx b) \<and>
       fst (exec b x) = fst (fifo_exec (fifo_of b) x) \<and>
       fifo_of (snd (exec b x)) = snd (snd (fifo_exec (fifo_of b) x)))"
proof (intro conjI impI)
  show "fb_inv FrameBuffer_new" by (rule fb_inv_new)
  show "fb_inv (snd (init FrameBuffer_new n m p env))" if "blocks_ok env p n m"
    by (rule init_inv [OF fb_inv_new that])
  show "fb_inv (snd (exec b x))"
  proof (cases "initialized b")
    case True
    then show ?thesis using exec_refines [OF assms(1) True assms(2)] by simp
  next
    case False
    then show ?thesis using assms(1) by (simp add: exec_uninitialized)
  qed
next
  assume ini: "initialized b"
  note E = exec_refines [OF assms(1) ini assms(2)]
  show "count b \<le> num_slots b" by (rule fb_invD(5) [OF assms(1) ini])
  show "empty b \<longleftrightarrow> count b = 0" by (simp add: empty_def)
  show "count b = 0 \<longleftrightarrow> (\<forall>i<num_slots b. \<not> occupied (slots b ! i))"
    by (rule inv_empty_iff [OF assms(1) ini])
  show "\<forall>i<num_slots b. occupied (slots b ! i) \<longleftrightarrow> ring_pos b i < count b"
    using inv_occupied [OF assms(1) ini] by simp
  show "\<forall>i<num_slots b. reading (slots b ! i) \<longrightarrow> i = read_idx b"
    using inv_reading [OF assms(1) ini] by blast
  show "fst (exec b x) = fst (fifo_exec (fifo_of b) x)" using E by simp
  show "fifo_of (snd (exec b x)) = snd (snd (fifo_exec (fifo_of b) x))" using E by simp
  show "hd (frames b) = frame_of (slots b ! read_idx b)" if "0 < count b"
    by (rule hd_frames [OF assms(1) ini that])
qed

theorem ring_invariants_witness:
  "fb_inv (snd (exec overflowed Pop)) \<and>
   count overflowed \<le> num_slots overflowed \<and>
   fifo_of (snd (exec overflowed Pop)) = snd (snd (fifo_exec (fifo_of overflowed) Pop))"
  using ring_invariants [OF overflowed_facts(1), of Pop] overflowed_facts(2) by simp

section \<open>Scheduling of the producer\<close>

text \<open>
  C6. In a turn of the producer loop that captures (the clock reading at the top of the
  turn is not before \<open>next_capture_time\<close>), with a clock that does not run backwards
  and times within the 64-bit range, the turn completes, keeps the interval, and leaves
  \<open>next_capture_time\<close> at most one interval after the clock reading taken after the
  capture. When the capture was delayed by more than one interval past its scheduled
  time, the new target is that clock reading plus one interval; otherwise it is the old
  target plus one interval.
\<close>

theorem drift_bounded:
  assumes turn: "\<not> now_top t < nxt"
    and mono: "now_top t \<le> now_after t"
    and rng: "i64 (nxt + frame_interval_us s)" "i64 (now_after t + frame_interval_us s)"
  shows "\<exists>s' nxt'. producer_iteration s nxt t = Inr (s', nxt', None) \<and>
    frame_interval_us s' = frame_interval_us s \<and>
    nxt' \<le> now_after t + frame_interval_us s \<and>
    (nxt + frame_interval_us s < now_after t \<longrightarrow> nxt' = now_after t + frame_interval_us s) \<and>
    (now_after t \<le> nxt + frame_interval_us s \<longrightarrow> nxt' = nxt + frame_interval_us s)"
proof -
  let ?s1 = "capture_step s (captured t)" and ?I = "frame_interval_us s"
  have it: "producer_iteration s nxt t =
      (if nxt + ?I < now_after t
       then Inr (?s1, now_after t + ?I, None)
       else Inr (?s1, nxt + ?I, None))"
    using turn rng by (simp add: producer_iteration_def add_i64_def Let_def)
  have le: "nxt \<le> now_after t" using turn mono by simp
  show ?thesis
  proof (cases "nxt + ?I < now_after t")
    case True
    then show ?thesis using it by simp
  next
    case False
    then show ?thesis using it le by simp
  qed
qed

theorem drift_bounded_witness:
  "\<exists>s'. producer_iteration idle_service 1000 late_tick = Inr (s', 600000, None)"
proof -
  have v: "now_after late_tick = 500000" "frame_interval_us idle_service = 100000"
    by (simp_all add: late_tick_def idle_service_eq)
  have h: "\<not> now_top late_tick < 1000" "now_top late_tick \<le> now_after late_tick"
    "i64 (1000 + frame_interval_us idle_service)"
    "i64 (now_after late_tick + frame_interval_us idle_service)"
    by (simp_all add: v i64_def) (simp_all add: late_tick_def)
  from drift_bounded [OF h] obtain s' nxt' where
    "producer_iteration idle_service 1000 late_tick = Inr (s', nxt', None)"
    "1000 + frame_interval_us idle_service < now_after late_tick \<longrightarrow>
       nxt' = now_after late_tick + frame_interval_us idle_service"
    by blast
  then show ?thesis using v by simp
qed

section \<open>Rejected pushes\<close>

text \<open>
  C7. For every buffer state, \<open>push\<close> with a size above the configured maximum frame
  size, with a null data pointer, with size zero, or on an uninitialized buffer returns
  failure and returns the buffer state as it was: slots, indices, \<open>count\<close> (so
  \<open>available()\<close>) and the drop counter are all unchanged.
\<close>

theorem push_rejected_unchanged:
  assumes "\<not> initialized b \<or> data = None \<or> sz = 0 \<or> sz > max_frame_size b"
  shows "push b data sz ts = (False, b)"
  using assms by (auto simp: push_def split: option.splits)

theorem push_rejected_unchanged_witness:
  "push (fresh 3 4) (Some [1, 2, 3, 4, 5]) 5 7 = (False, fresh 3 4)"
  using push_rejected_unchanged [of "fresh 3 4" "Some [1, 2, 3, 4, 5]" 5 7]
  by (simp add: fresh_eq)

section \<open>Clearing\<close>

text \<open>
  C8. Let \<open>b\<close> be an initialized buffer satisfying the invariant (every reachable
  state does) and \<open>f\<close> a freshly initialized buffer of the same capacity and maximum
  frame size. Every sequence of well-formed push, peek, pop and clear calls gives, on
  \<open>clear b\<close> and on \<open>f\<close>, the same return values, the same bytes, sizes and timestamps
  through peek, and the same status readings after each call. \<open>clear\<close> leaves the drop
  counter as it was, and after the sequence it reads its value before the clear plus what
  the fresh buffer counts.
\<close>

theorem clear_like_fresh:
  assumes "fb_inv b" and "initialized b"
    and "init FrameBuffer_new (num_slots b) (max_frame_size b) p env = (True, f)"
    and "blocks_ok env p (num_slots b) (max_frame_size b)"
    and "\<forall>x\<in>set xs. op_wf x"
  shows "fst (run (clear b) xs) = fst (run f xs) \<and>
    frames_dropped (clear b) = frames_dropped b \<and>
    frames_dropped (snd (run (clear b) xs)) = frames_dropped b + frames_dropped (snd (run f xs)) \<and>
    fifo_of (snd (run (clear b) xs)) = fifo_of (snd (run f xs))"
proof -
  note C = clear_refines [OF assms(1,2)]
  note I = init_fifo [OF assms(3,4)]
  have same: "fifo_of (clear b) = fifo_of f"
    unfolding I(6) by (rule fifo_of_eqI) (simp_all add: C(3,5,6,7))
  note R1 = run_refines [OF C(1,2) assms(5)]
  note R2 = run_refines [OF I(1,2) assms(5)]
  show ?thesis
    using R1 R2 C(4) I(3) by (simp add: same)
qed

theorem clear_like_fresh_witness:
  "fst (run (clear overflowed) [Push (Some [7, 8]) 2 40, Peek True True True, Pop, Peek True False True])
     = fst (run (fresh 2 4) [Push (Some [7, 8]) 2 40, Peek True True True, Pop, Peek True False True]) \<and>
   frames_dropped (clear overflowed) = frames_dropped overflowed"
proof -
  note n = overflowed_shape
  have i: "init FrameBuffer_new (num_slots overflowed) (max_frame_size overflowed) True (zero_env 4)
      = (True, fresh 2 4)"
    unfolding n by (simp add: init_zero_env)
  have k: "blocks_ok (zero_env 4) True (num_slots overflowed) (max_frame_size overflowed)"
    unfolding n by (rule blocks_ok_zero_env)
  have w: "\<forall>x\<in>set [Push (Some [7, 8]) 2 40, Peek True True True, Pop, Peek True False True]. op_wf x"
    by simp
  from clear_like_fresh [OF overflowed_facts i k w] show ?thesis
    by blast
qed

section \<open>Releasing a frame\<close>

text \<open>
  C9. In every service state \<open>release_frame\<close> increments \<open>frames_sent\<close> (as a
  \<^verbatim>\<open>uint32_t\<close>) and leaves \<open>frames_captured\<close> alone; when the buffer is empty or
  uninitialized the \<open>pop\<close> underneath leaves the buffer as it is. So where
  \<open>frames_sent\<close> equalled \<open>frames_captured\<close> (and is not at its maximum) it now exceeds
  it, although no frame was delivered by this call.
\<close>

theorem release_frame_counts:
  "frames_sent (stats (release_frame s)) = frames_sent (stats s) + 1 \<and>
   frames_captured (stats (release_frame s)) = frames_captured (stats s) \<and>
   (empty (buffer s) \<or> \<not> initialized (buffer s) \<longrightarrow> buffer (release_frame s) = buffer s) \<and>
   (frames_sent (stats s) = frames_captured (stats s) \<and> frames_sent (stats s) \<noteq> - 1 \<longrightarrow>
      frames_captured (stats (release_frame s)) < frames_sent (stats (release_frame s)))"
proof -
  have "frames_captured (stats s) < frames_captured (stats s) + 1"
    if "frames_captured (stats s) \<noteq> - 1"
    using that by (rule word_lt_succ)
  moreover have "pop (buffer s) = buffer s" if "empty (buffer s) \<or> \<not> initialized (buffer s)"
    using that by (auto simp: pop_def empty_def)
  ultimately show ?thesis
    by (auto simp: release_frame_def)
qed

theorem release_frame_counts_witness:
  "frames_sent (stats (release_frame idle_service)) = 1 \<and>
   frames_captured (stats (release_frame idle_service)) = 0 \<and>
   buffer (release_frame idle_service) = buffer idle_service \<and>
   frames_captured (stats (release_frame idle_service)) < frames_sent (stats (release_frame idle_service))"
proof -
  have h: "empty (buffer idle_service)" "frames_sent (stats idle_service) = 0"
    "frames_captured (stats idle_service) = 0"
    by (simp_all add: idle_service_eq empty_def fresh_eq)
  show ?thesis
    using release_frame_counts [of idle_service] h by simp
qed

section \<open>Initializing the service\<close>

text \<open>
  C10. On a service that is already initialized, \<open>init\<close> returns true and leaves the
  whole service state (stored configuration, frame interval, ring buffer) as it was,
  whatever configuration, allocator and platform it is given.
\<close>

theorem svc_init_again:
  assumes "svc_initialized s"
  shows "svc_init s cfg env sem_ok = Inr (True, s)"
  using assms by (simp add: svc_init_def)

theorem svc_init_again_witness:
  "svc_init idle_service (small_config\<lparr>target_fps := 0, buffer_slots := 7\<rparr>) (zero_env 9) False
     = Inr (True, idle_service)"
proof -
  have h: "svc_initialized idle_service" by (simp add: idle_service_eq)
  show ?thesis by (rule svc_init_again [OF h])
qed

end
